theory Spec2Isabelle
  imports Main "HOL-Library.Word"
begin

unbundle bit_operations_syntax

section \<open>Machine types\<close>

type_synonym u8 = "8 word"
type_synonym u16 = "16 word"
type_synonym u32 = "32 word"
type_synonym u64 = "64 word"

section \<open>std::map as a key-sorted association list\<close>

text \<open>
  \<open>std::map<uint64_t, V>\<close> keeps its entries ordered by key, holds each key once, and
  \<open>begin()\<close> is the entry of the lowest key. It is modelled as an association list that
  the operations keep strictly sorted by key.
\<close>

definition map_wf :: "(u64 \<times> 'v) list \<Rightarrow> bool" where
  "map_wf m = sorted_wrt (<) (map fst m)"

text \<open>\<open>m.erase(m.find(k))\<close>\<close>

definition map_erase :: "u64 \<Rightarrow> (u64 \<times> 'v) list \<Rightarrow> (u64 \<times> 'v) list" where
  "map_erase k m = filter (\<lambda>kv. fst kv \<noteq> k) m"

text \<open>\<open>m[k] = v\<close>: insert at the key's place, or overwrite.\<close>

fun map_assign :: "u64 \<Rightarrow> 'v \<Rightarrow> (u64 \<times> 'v) list \<Rightarrow> (u64 \<times> 'v) list" where
  "map_assign k v [] = [(k, v)]"
| "map_assign k v ((k', v') # m) =
     (if k < k' then (k, v) # (k', v') # m
      else if k = k' then (k, v) # m
      else (k', v') # map_assign k v m)"

text \<open>\<open>m.erase(m.begin())\<close> on a non-empty map.\<close>

definition map_erase_begin :: "(u64 \<times> 'v) list \<Rightarrow> (u64 \<times> 'v) list" where
  "map_erase_begin m = (case m of [] \<Rightarrow> [] | _ # rest \<Rightarrow> rest)"

section \<open>Packet manager (packet\_manager.hpp)\<close>

datatype FeedState = INITIAL | RECOVERING | LIVE | STALE

record GapFillRequest =
  start_seq :: u64
  end_seq :: u64
  request_time_ns :: u64
  retry_count :: u8

record Stats =
  total_packets :: u64
  duplicates :: u64
  gaps_detected :: u64
  gaps_filled :: u64
  out_of_order :: u64
  resequenced :: u64
  dropped_overflow :: u64

text \<open>
  The members of \<open>class PacketManager\<close>. The callback \<open>gap_fill_callback_\<close> is a
  \<open>std::function\<close> that may be empty: \<open>gap_fill_callback\<close> says whether one is set, and
  \<open>callback_calls\<close> is the trace of the requests it has been invoked with, oldest first.
\<close>

record PacketManager =
  state :: FeedState
  next_expected_seq :: u64
  highest_seq_seen :: u64
  recent_sequences :: "u64 list"
  recent_seq_set :: "u64 set"
  resequence_buffer :: "(u64 \<times> u8 list) list"
  pending_gaps :: "GapFillRequest list"
  stats :: Stats
  gap_fill_callback :: bool
  callback_calls :: "GapFillRequest list"

definition DUPLICATE_WINDOW_SIZE :: nat where
  "DUPLICATE_WINDOW_SIZE = 10000"

definition MAX_RESEQUENCE_BUFFER_SIZE :: nat where
  "MAX_RESEQUENCE_BUFFER_SIZE = 1000"

definition MAX_GAP_SIZE :: u64 where
  "MAX_GAP_SIZE = 1000"

definition GAP_TIMEOUT_NS :: u64 where
  "GAP_TIMEOUT_NS = 1000000000"

definition MAX_RETRIES :: u8 where
  "MAX_RETRIES = 3"

text \<open>A default-constructed \<open>PacketManager\<close>, with or without a callback set.\<close>

definition init_stats :: Stats where
  "init_stats = \<lparr>total_packets = 0, duplicates = 0, gaps_detected = 0, gaps_filled = 0,
     out_of_order = 0, resequenced = 0, dropped_overflow = 0\<rparr>"

definition init_pm :: "bool \<Rightarrow> PacketManager" where
  "init_pm cb = \<lparr>state = INITIAL, next_expected_seq = 0, highest_seq_seen = 0,
     recent_sequences = [], recent_seq_set = {}, resequence_buffer = [],
     pending_gaps = [], stats = init_stats, gap_fill_callback = cb, callback_calls = []\<rparr>"

text \<open>\<open>if (gap_fill_callback_) gap_fill_callback_(req);\<close>\<close>

definition invoke_callback :: "GapFillRequest \<Rightarrow> PacketManager \<Rightarrow> PacketManager" where
  "invoke_callback req pm =
     (if gap_fill_callback pm then pm\<lparr>callback_calls := callback_calls pm @ [req]\<rparr> else pm)"

definition is_duplicate :: "PacketManager \<Rightarrow> u64 \<Rightarrow> bool" where
  "is_duplicate pm sequence = (sequence \<in> recent_seq_set pm)"

definition mark_seen :: "u64 \<Rightarrow> PacketManager \<Rightarrow> PacketManager" where
  "mark_seen sequence pm =
     (let pm1 = pm\<lparr>recent_seq_set := insert sequence (recent_seq_set pm),
                     recent_sequences := recent_sequences pm @ [sequence]\<rparr>
      in if length (recent_sequences pm1) > DUPLICATE_WINDOW_SIZE
         then (case recent_sequences pm1 of
                 [] \<Rightarrow> pm1
               | old_seq # rest \<Rightarrow>
                   pm1\<lparr>recent_sequences := rest,
                       recent_seq_set := recent_seq_set pm1 - {old_seq}\<rparr>)
         else pm1)"

text \<open>
  A packet's bytes are \<open>(data, data_size)\<close> in the source; here \<open>None\<close> is the null
  pointer and \<open>Some d\<close> the \<open>data_size\<close> bytes at \<open>data\<close>, so \<open>data && data_size > 0\<close> is
  \<open>Some d\<close> with \<open>d \<noteq> []\<close>.
\<close>

definition buffer_packet :: "u64 \<Rightarrow> u8 list \<Rightarrow> PacketManager \<Rightarrow> PacketManager" where
  "buffer_packet sequence d pm =
     (let pm1 = (if length (resequence_buffer pm) \<ge> MAX_RESEQUENCE_BUFFER_SIZE
                 then pm\<lparr>resequence_buffer := map_erase_begin (resequence_buffer pm),
                         stats := (stats pm)\<lparr>dropped_overflow := dropped_overflow (stats pm) + 1\<rparr>\<rparr>
                 else pm)
      in pm1\<lparr>resequence_buffer := map_assign sequence d (resequence_buffer pm1)\<rparr>)"

text \<open>
  \<open>if (data && data_size > 0) { buffer_packet(...); stats_.out_of_order++; }\<close>, shared by
  the live and the recovering handler.
\<close>

definition buffer_if_data :: "u64 \<Rightarrow> u8 list option \<Rightarrow> PacketManager \<Rightarrow> PacketManager" where
  "buffer_if_data sequence data pm =
     (case data of
        None \<Rightarrow> pm
      | Some d \<Rightarrow>
          if d \<noteq> [] then
            (let pm1 = buffer_packet sequence d pm
             in pm1\<lparr>stats := (stats pm1)\<lparr>out_of_order := out_of_order (stats pm1) + 1\<rparr>\<rparr>)
          else pm)"

definition process_gap_fill :: "u64 \<Rightarrow> u64 \<Rightarrow> PacketManager \<Rightarrow> PacketManager" where
  "process_gap_fill s e pm =
     (let pm1 = pm\<lparr>pending_gaps :=
                       filter (\<lambda>req. \<not> (start_seq req = s \<and> end_seq req = e)) (pending_gaps pm),
                     stats := (stats pm)\<lparr>gaps_filled := gaps_filled (stats pm) + 1\<rparr>\<rparr>
      in if pending_gaps pm1 = [] \<and> state pm1 = RECOVERING then pm1\<lparr>state := LIVE\<rparr> else pm1)"

definition handle_initial_state :: "u64 \<Rightarrow> PacketManager \<Rightarrow> bool \<times> PacketManager" where
  "handle_initial_state sequence pm =
     (True, pm\<lparr>next_expected_seq := sequence + 1, state := LIVE\<rparr>)"

definition handle_live_state ::
  "u64 \<Rightarrow> u8 list option \<Rightarrow> u64 \<Rightarrow> PacketManager \<Rightarrow> bool \<times> PacketManager" where
  "handle_live_state sequence data timestamp pm =
     (if sequence = next_expected_seq pm then
        (True, pm\<lparr>next_expected_seq := next_expected_seq pm + 1\<rparr>)
      else if sequence < next_expected_seq pm then (False, pm)
      else
        (let gap_size = sequence - next_expected_seq pm;
             pm1 = pm\<lparr>stats := (stats pm)\<lparr>gaps_detected := gaps_detected (stats pm) + 1\<rparr>\<rparr>
         in if gap_size > MAX_GAP_SIZE then (False, pm1\<lparr>state := STALE\<rparr>)
            else
              (let gap_req = \<lparr>start_seq = next_expected_seq pm1, end_seq = sequence - 1,
                               request_time_ns = timestamp, retry_count = 0\<rparr>;
                   pm2 = pm1\<lparr>pending_gaps := pending_gaps pm1 @ [gap_req]\<rparr>;
                   pm3 = invoke_callback gap_req pm2;
                   pm4 = pm3\<lparr>state := RECOVERING\<rparr>
               in (False, buffer_if_data sequence data pm4))))"

text \<open>
  The scan over \<open>pending_gaps_\<close> in the last branch of \<open>handle_recovering_state\<close>: the
  first request whose range holds the sequence decides, and the loop returns there.
\<close>

fun gap_scan :: "u64 \<Rightarrow> GapFillRequest list \<Rightarrow> PacketManager \<Rightarrow> bool \<times> PacketManager" where
  "gap_scan sequence [] pm = (False, pm)"
| "gap_scan sequence (g # gs) pm =
     (if sequence \<ge> start_seq g \<and> sequence \<le> end_seq g then
        (True, if sequence = end_seq g then process_gap_fill (start_seq g) (end_seq g) pm else pm)
      else gap_scan sequence gs pm)"

definition handle_recovering_state ::
  "u64 \<Rightarrow> u8 list option \<Rightarrow> PacketManager \<Rightarrow> bool \<times> PacketManager" where
  "handle_recovering_state sequence data pm =
     (if sequence = next_expected_seq pm then
        (let pm1 = pm\<lparr>next_expected_seq := next_expected_seq pm + 1\<rparr>
         in (True, if pending_gaps pm1 = [] then pm1\<lparr>state := LIVE\<rparr> else pm1))
      else if sequence > next_expected_seq pm then (False, buffer_if_data sequence data pm)
      else gap_scan sequence (pending_gaps pm) pm)"

definition process_packet ::
  "u64 \<Rightarrow> u8 list option \<Rightarrow> u64 \<Rightarrow> PacketManager \<Rightarrow> bool \<times> PacketManager" where
  "process_packet sequence data timestamp pm =
     (let pm1 = pm\<lparr>stats := (stats pm)\<lparr>total_packets := total_packets (stats pm) + 1\<rparr>\<rparr>;
          pm2 = (if sequence > highest_seq_seen pm1 then pm1\<lparr>highest_seq_seen := sequence\<rparr>
                 else pm1)
      in if is_duplicate pm2 sequence then
           (False, pm2\<lparr>stats := (stats pm2)\<lparr>duplicates := duplicates (stats pm2) + 1\<rparr>\<rparr>)
         else
           (let pm3 = mark_seen sequence pm2
            in case state pm3 of
                 INITIAL \<Rightarrow> handle_initial_state sequence pm3
               | LIVE \<Rightarrow> handle_live_state sequence data timestamp pm3
               | RECOVERING \<Rightarrow> handle_recovering_state sequence data pm3
               | STALE \<Rightarrow> (False, pm3)))"

text \<open>
  The \<open>while\<close> loop of \<open>get_ready_packets\<close>, with \<open>ready\<close> the vector built so far. Each
  round erases an entry, so the loop ends.
\<close>

function get_ready_loop :: "PacketManager \<Rightarrow> u8 list list \<Rightarrow> u8 list list \<times> PacketManager" where
  "get_ready_loop pm ready =
     (if resequence_buffer pm = [] then (ready, pm)
      else
        (case map_of (resequence_buffer pm) (next_expected_seq pm) of
           None \<Rightarrow> (ready, pm)
         | Some d \<Rightarrow>
             get_ready_loop
               (pm\<lparr>resequence_buffer := map_erase (next_expected_seq pm) (resequence_buffer pm),
                   next_expected_seq := next_expected_seq pm + 1,
                   stats := (stats pm)\<lparr>resequenced := resequenced (stats pm) + 1\<rparr>\<rparr>)
               (ready @ [d])))"
  by pat_completeness auto
termination
  by (relation "measure (\<lambda>(pm, ready). length (resequence_buffer pm))")
     (auto simp: map_erase_def dest!: map_of_SomeD intro: length_filter_less)

declare get_ready_loop.simps [simp del]

definition get_ready_packets :: "PacketManager \<Rightarrow> u8 list list \<times> PacketManager" where
  "get_ready_packets pm = get_ready_loop pm []"

text \<open>
  The range-for of \<open>periodic_maintenance\<close> over \<open>pending_gaps_\<close>: each request is updated
  in place, the callback and \<open>state_\<close> live in the manager.
\<close>

fun maintenance_loop ::
  "u64 \<Rightarrow> GapFillRequest list \<Rightarrow> PacketManager \<Rightarrow> GapFillRequest list \<times> PacketManager" where
  "maintenance_loop now [] pm = ([], pm)"
| "maintenance_loop now (gap # gaps) pm =
     (if now - request_time_ns gap > GAP_TIMEOUT_NS then
        (if retry_count gap < MAX_RETRIES then
           (let gap' = gap\<lparr>retry_count := retry_count gap + 1, request_time_ns := now\<rparr>;
                (gaps', pm') = maintenance_loop now gaps (invoke_callback gap' pm)
            in (gap' # gaps', pm'))
         else
           (let (gaps', pm') = maintenance_loop now gaps (pm\<lparr>state := STALE\<rparr>)
            in (gap # gaps', pm')))
      else
        (let (gaps', pm') = maintenance_loop now gaps pm in (gap # gaps', pm')))"

definition periodic_maintenance :: "u64 \<Rightarrow> PacketManager \<Rightarrow> PacketManager" where
  "periodic_maintenance current_time_ns pm =
     (let (gaps', pm') = maintenance_loop current_time_ns (pending_gaps pm) pm
      in pm'\<lparr>pending_gaps := gaps'\<rparr>)"

definition trigger_resync :: "PacketManager \<Rightarrow> PacketManager" where
  "trigger_resync pm =
     pm\<lparr>state := INITIAL, resequence_buffer := [], pending_gaps := [],
        recent_sequences := [], recent_seq_set := {}\<rparr>"

text \<open>
  The sequencing part of one iteration of \<open>FeedHandler::run\<close> on a received packet:
  \<open>process_packet\<close>, the packet handed on when it returns true, then every packet of
  \<open>get_ready_packets\<close> handed on in turn. \<open>out\<close> is what has been handed on so far.
\<close>

definition sequence_packet ::
  "u64 \<Rightarrow> u8 list \<Rightarrow> u64 \<Rightarrow> PacketManager \<times> u8 list list \<Rightarrow> PacketManager \<times> u8 list list" where
  "sequence_packet sequence d timestamp st =
     (let (should_process, pm1) = process_packet sequence (Some d) timestamp (fst st);
          out1 = (if should_process then snd st @ [d] else snd st);
          (ready, pm2) = get_ready_packets pm1
      in (pm2, out1 @ ready))"

definition sequence_packets ::
  "(u64 \<times> u8 list \<times> u64) list \<Rightarrow> PacketManager \<times> u8 list list \<Rightarrow> PacketManager \<times> u8 list list" where
  "sequence_packets pkts st = fold (\<lambda>(sequence, d, timestamp). sequence_packet sequence d timestamp) pkts st"


section \<open>Lock-free SPSC ring (spsc\_queue.hpp)\<close>

text \<open>
  \<open>SPSCQueue<T, Size>\<close>: the template parameter \<open>Size\<close> is an argument of the operations,
  the positions are the 64-bit atomics, \<open>buffer_\<close> is the array of \<open>Size\<close> slots. Each
  operation is one atomic step of its thread; the memory orders are not modelled.
\<close>

record 'a SPSCQueue =
  buffer :: "'a list"
  write_pos :: u64
  read_pos :: u64
  cached_read_pos :: u64
  cached_write_pos :: u64

text \<open>
  \<open>static_assert((Size & (Size - 1)) == 0, "Size must be power of 2")\<close> on a 64-bit
  \<open>size_t\<close>, for a ring that has a slot: \<open>Size\<close> is one of \<open>1, 2, 4, ..., 2 ^ 63\<close>.
\<close>

definition valid_size :: "nat \<Rightarrow> bool" where
  "valid_size Size = (Size \<in> set (map (\<lambda>k. 2 ^ k) [0..<64]))"

definition SIZE_MASK :: "nat \<Rightarrow> u64" where
  "SIZE_MASK Size = of_nat (Size - 1)"

definition empty_queue :: "nat \<Rightarrow> 'a \<Rightarrow> 'a SPSCQueue" where
  "empty_queue Size d = \<lparr>buffer = replicate Size d, write_pos = 0, read_pos = 0,
     cached_read_pos = 0, cached_write_pos = 0\<rparr>"

definition try_push :: "nat \<Rightarrow> 'a \<Rightarrow> 'a SPSCQueue \<Rightarrow> bool \<times> 'a SPSCQueue" where
  "try_push Size item q =
     (let current_write = write_pos q;
          next_write = current_write + 1;
          q1 = (if unat (next_write - cached_read_pos q) > Size
                then q\<lparr>cached_read_pos := read_pos q\<rparr> else q)
      in if unat (next_write - cached_read_pos q) > Size \<and>
            unat (next_write - cached_read_pos q1) > Size
         then (False, q1)
         else (True, q1\<lparr>buffer := (buffer q1)[unat (current_write AND SIZE_MASK Size) := item],
                        write_pos := next_write\<rparr>))"

definition try_pop :: "nat \<Rightarrow> 'a SPSCQueue \<Rightarrow> 'a option \<times> 'a SPSCQueue" where
  "try_pop Size q =
     (let current_read = read_pos q;
          q1 = (if current_read \<ge> cached_write_pos q
                then q\<lparr>cached_write_pos := write_pos q\<rparr> else q)
      in if current_read \<ge> cached_write_pos q \<and> current_read \<ge> cached_write_pos q1
         then (None, q1)
         else (Some (buffer q1 ! unat (current_read AND SIZE_MASK Size)),
               q1\<lparr>read_pos := current_read + 1\<rparr>))"

text \<open>Pushing the items of a list one after the other; the results in order.\<close>

fun push_all :: "nat \<Rightarrow> 'a list \<Rightarrow> 'a SPSCQueue \<Rightarrow> bool list \<times> 'a SPSCQueue" where
  "push_all Size [] q = ([], q)"
| "push_all Size (x # xs) q =
     (let (ok, q1) = try_push Size x q; (oks, q2) = push_all Size xs q1 in (ok # oks, q2))"

text \<open>
  What the producer side of a ring keeps true from the start, in the ring's own modular
  arithmetic: the cached read position is an earlier reading of \<open>read_pos_\<close>, so it is
  at least as far behind the writer as the reader is, and no push leaves the writer more
  than \<open>Size\<close> ahead of it.
\<close>

definition ring_inv :: "nat \<Rightarrow> 'a SPSCQueue \<Rightarrow> bool" where
  "ring_inv Size q =
     (length (buffer q) = Size \<and>
      unat (write_pos q - read_pos q) \<le> unat (write_pos q - cached_read_pos q) \<and>
      unat (write_pos q - cached_read_pos q) \<le> Size)"

section \<open>Wire format (types.hpp)\<close>

text \<open>
  \<open>MarketDataPacket\<close> is a packed struct, read in place from the datagram on a
  little-endian machine: \<open>msg_type\<close> at byte 0, \<open>version\<close> at 1, \<open>payload_size\<close> at 2,
  \<open>packet_sequence\<close> at 4, the payload union at 12. The union's members are the packed
  \<open>TradeMessage\<close> (40 bytes), the packed \<open>QuoteMessage\<close> (52 bytes) and \<open>raw_data[256]\<close>.
\<close>

definition sizeof_TradeMessage :: nat where
  "sizeof_TradeMessage = 8 + 8 + 4 + 4 + 8 + 4 + 1 + 3"

definition sizeof_QuoteMessage :: nat where
  "sizeof_QuoteMessage = 8 + 8 + 4 + 8 + 8 + 4 + 4 + 1 + 7"

definition sizeof_payload :: nat where
  "sizeof_payload = max (max sizeof_TradeMessage sizeof_QuoteMessage) 256"

definition sizeof_header :: nat where
  "sizeof_header = 1 + 1 + 2 + 8"

definition sizeof_MarketDataPacket :: nat where
  "sizeof_MarketDataPacket = sizeof_header + sizeof_payload"

fun le_bytes :: "u8 list \<Rightarrow> nat" where
  "le_bytes [] = 0"
| "le_bytes (b # bs) = unat b + 256 * le_bytes bs"

definition read_u8 :: "u8 list \<Rightarrow> nat \<Rightarrow> u8" where
  "read_u8 bs off = of_nat (le_bytes (take 1 (drop off bs)))"

definition read_u16 :: "u8 list \<Rightarrow> nat \<Rightarrow> u16" where
  "read_u16 bs off = of_nat (le_bytes (take 2 (drop off bs)))"

definition read_u32 :: "u8 list \<Rightarrow> nat \<Rightarrow> u32" where
  "read_u32 bs off = of_nat (le_bytes (take 4 (drop off bs)))"

definition read_u64 :: "u8 list \<Rightarrow> nat \<Rightarrow> u64" where
  "read_u64 bs off = of_nat (le_bytes (take 8 (drop off bs)))"

definition TRADE :: u8 where "TRADE = 0x01"
definition QUOTE :: u8 where "QUOTE = 0x02"
definition ORDER_ADD :: u8 where "ORDER_ADD = 0x03"
definition ORDER_DELETE :: u8 where "ORDER_DELETE = 0x04"
definition ORDER_MODIFY :: u8 where "ORDER_MODIFY = 0x05"
definition HEARTBEAT :: u8 where "HEARTBEAT = 0xFF"

definition pkt_msg_type :: "u8 list \<Rightarrow> u8" where
  "pkt_msg_type bs = read_u8 bs 0"

definition pkt_payload_size :: "u8 list \<Rightarrow> u16" where
  "pkt_payload_size bs = read_u16 bs 2"

definition pkt_packet_sequence :: "u8 list \<Rightarrow> u64" where
  "pkt_packet_sequence bs = read_u64 bs 4"

text \<open>The union \<open>MarketEvent::data\<close>, zero-initialised by \<open>MarketEvent event{}\<close>.\<close>

datatype EventData =
  Trade_data (price: u64) (quantity: u32) (side: u8)
| Quote_data (bid_price: u64) (ask_price: u64) (bid_size: u32) (ask_size: u32)

record MarketEvent =
  recv_timestamp_ns :: u64
  exchange_timestamp_ns :: u64
  symbol_id :: u32
  ev_type :: u8
  ev_data :: EventData

definition zero_event :: MarketEvent where
  "zero_event = \<lparr>recv_timestamp_ns = 0, exchange_timestamp_ns = 0, symbol_id = 0,
     ev_type = 0, ev_data = Trade_data 0 0 0\<rparr>"

section \<open>Feed handler (feed\_handler\_impl.hpp)\<close>

text \<open>
  \<open>FeedHandlerStats\<close> without its latency fields: the latency of a packet is a reading
  of the cycle counter scaled in floating point, and nothing below depends on it.
\<close>

record FeedHandlerStats =
  packets_received :: u64
  packets_processed :: u64
  packets_dropped :: u64
  sequence_gaps :: u64

datatype LogLine = LOG_STARTED | LOG_RECEIVE_ERROR | LOG_STOPPED

text \<open>
  The members of \<open>FeedHandler\<close> that \<open>run\<close> reads or writes. \<open>console\<close> holds the lines
  that \<open>run\<close> itself writes to \<open>std::cout\<close> and \<open>std::cerr\<close>; the periodic statistics
  lines (\<open>print_stats\<close>, \<open>log_stats\<close>) only print and are left out, and with
  them the local \<open>spin_count\<close> that paces them.
\<close>

record FeedHandler =
  packet_manager :: PacketManager
  event_queue :: "MarketEvent SPSCQueue"
  fh_stats :: FeedHandlerStats
  last_maintenance_time :: u64
  last_log_time :: u64
  console :: "LogLine list"

definition QUEUE_SIZE :: nat where
  "QUEUE_SIZE = 65536"

definition MAINTENANCE_INTERVAL_NS :: u64 where
  "MAINTENANCE_INTERVAL_NS = 100000000"

definition LOG_INTERVAL_NS :: u64 where
  "LOG_INTERVAL_NS = 5000000000"

text \<open>The constructor: fresh packet manager with the gap-fill callback set.\<close>

definition init_fh :: FeedHandler where
  "init_fh = \<lparr>packet_manager = init_pm True,
     event_queue = empty_queue QUEUE_SIZE zero_event,
     fh_stats = \<lparr>packets_received = 0, packets_processed = 0, packets_dropped = 0,
                  sequence_gaps = 0\<rparr>,
     last_maintenance_time = 0, last_log_time = 0, console = []\<rparr>"

text \<open>
  \<open>parse_and_queue_packet\<close>: \<open>None\<close> where the source returns before building an event
  (heartbeat, unknown type).
\<close>

definition normalize :: "u8 list \<Rightarrow> u64 \<Rightarrow> MarketEvent option" where
  "normalize bs recv_tsc =
     (if pkt_msg_type bs = TRADE then
        Some \<lparr>recv_timestamp_ns = recv_tsc, exchange_timestamp_ns = read_u64 bs 12,
              symbol_id = read_u32 bs 28, ev_type = pkt_msg_type bs,
              ev_data = Trade_data (read_u64 bs 36) (read_u32 bs 44) (read_u8 bs 48)\<rparr>
      else if pkt_msg_type bs = QUOTE then
        Some \<lparr>recv_timestamp_ns = recv_tsc, exchange_timestamp_ns = read_u64 bs 12,
              symbol_id = read_u32 bs 28, ev_type = pkt_msg_type bs,
              ev_data = Quote_data (read_u64 bs 32) (read_u64 bs 40) (read_u32 bs 48)
                          (read_u32 bs 52)\<rparr>
      else None)"

definition parse_and_queue_packet :: "u8 list \<Rightarrow> u64 \<Rightarrow> FeedHandler \<Rightarrow> FeedHandler" where
  "parse_and_queue_packet bs recv_tsc fh =
     (case normalize bs recv_tsc of
        None \<Rightarrow> fh
      | Some event \<Rightarrow>
          (let (pushed, q1) = try_push QUEUE_SIZE event (event_queue fh);
               fh1 = fh\<lparr>event_queue := q1\<rparr>
           in if \<not> pushed then
                fh1\<lparr>fh_stats := (fh_stats fh1)\<lparr>packets_dropped := packets_dropped (fh_stats fh1) + 1\<rparr>\<rparr>
              else
                fh1\<lparr>fh_stats := (fh_stats fh1)\<lparr>packets_processed := packets_processed (fh_stats fh1) + 1\<rparr>\<rparr>))"

text \<open>\<open>FeedHandler::process_packet(data, size, recv_tsc)\<close>; \<open>size\<close> is the length of \<open>bs\<close>.\<close>

definition fh_process_packet :: "u8 list \<Rightarrow> u64 \<Rightarrow> FeedHandler \<Rightarrow> FeedHandler" where
  "fh_process_packet bs recv_tsc fh =
     (if length bs < sizeof_MarketDataPacket then fh
      else
        (let (should_process, pm1) =
               process_packet (pkt_packet_sequence bs) (Some bs) recv_tsc (packet_manager fh);
             fh1 = fh\<lparr>packet_manager := pm1\<rparr>;
             fh2 = (if duplicates (stats pm1) > 0
                    then fh1\<lparr>fh_stats := (fh_stats fh1)\<lparr>sequence_gaps :=
                               sequence_gaps (fh_stats fh1) + duplicates (stats pm1)\<rparr>\<rparr>
                    else fh1)
         in if \<not> should_process then fh2 else parse_and_queue_packet bs recv_tsc fh2))"

definition process_buffered_packet :: "u8 list \<Rightarrow> u64 \<Rightarrow> FeedHandler \<Rightarrow> FeedHandler" where
  "process_buffered_packet bs recv_tsc fh =
     (if length bs < sizeof_MarketDataPacket then fh else parse_and_queue_packet bs recv_tsc fh)"

text \<open>
  What one iteration of the loop in \<open>run\<close> reads from outside: the flag \<open>g_running\<close>, the
  cycle counter at the top of the iteration, the result of \<open>receive_internal\<close> and the
  cycle counter right after it. \<open>Datagram bs\<close> is a return of \<open>length bs\<close> bytes (0 when
  the socket would block), \<open>Recv_failed\<close> the return \<open>-1\<close>.
\<close>

datatype RecvResult = Datagram "u8 list" | Recv_failed

definition bytes_received :: "RecvResult \<Rightarrow> int" where
  "bytes_received r = (case r of Datagram bs \<Rightarrow> int (length bs) | Recv_failed \<Rightarrow> -1)"

record IterInput =
  running :: bool
  current_time :: u64
  received :: RecvResult
  recv_tsc :: u64

datatype LoopExit = Flag_cleared | Receive_error | Still_running

definition maintenance_tick :: "u64 \<Rightarrow> FeedHandler \<Rightarrow> FeedHandler" where
  "maintenance_tick now fh =
     (if now - last_maintenance_time fh > MAINTENANCE_INTERVAL_NS then
        (let fh1 = fh\<lparr>packet_manager := periodic_maintenance now (packet_manager fh),
                       last_maintenance_time := now\<rparr>
         in if now - last_log_time fh1 > LOG_INTERVAL_NS then fh1\<lparr>last_log_time := now\<rparr>
            else fh1)
      else fh)"

definition on_datagram :: "u8 list \<Rightarrow> u64 \<Rightarrow> FeedHandler \<Rightarrow> FeedHandler" where
  "on_datagram bs tsc fh =
     (let fh1 = fh\<lparr>fh_stats := (fh_stats fh)\<lparr>packets_received := packets_received (fh_stats fh) + 1\<rparr>\<rparr>;
          fh2 = fh_process_packet bs tsc fh1;
          (ready_packets, pm1) = get_ready_packets (packet_manager fh2);
          fh3 = fh2\<lparr>packet_manager := pm1\<rparr>
      in fold (\<lambda>packet_data. process_buffered_packet packet_data tsc) ready_packets fh3)"

text \<open>
  The \<open>while (g_running.load())\<close> loop over the readings of its iterations. When the
  readings run out the loop is still running (\<open>Still_running\<close>); otherwise it has left
  through the loop condition or through the \<open>break\<close>.
\<close>

fun run_loop :: "IterInput list \<Rightarrow> FeedHandler \<Rightarrow> LoopExit \<times> FeedHandler" where
  "run_loop [] fh = (Still_running, fh)"
| "run_loop (i # inputs) fh =
     (if \<not> running i then (Flag_cleared, fh)
      else
        (let fh1 = maintenance_tick (current_time i) fh
         in if bytes_received (received i) > 0 then
              run_loop inputs
                (on_datagram (case received i of Datagram bs \<Rightarrow> bs | Recv_failed \<Rightarrow> [])
                   (recv_tsc i) fh1)
            else if bytes_received (received i) = 0 then run_loop inputs fh1
            else (Receive_error, fh1\<lparr>console := console fh1 @ [LOG_RECEIVE_ERROR]\<rparr>)))"

definition run :: "u64 \<Rightarrow> IterInput list \<Rightarrow> FeedHandler \<Rightarrow> LoopExit \<times> FeedHandler" where
  "run start_tsc inputs fh =
     (let fh0 = fh\<lparr>console := console fh @ [LOG_STARTED], last_maintenance_time := start_tsc,
                    last_log_time := start_tsc\<rparr>;
          (ex, fh1) = run_loop inputs fh0
      in (ex, if ex = Still_running then fh1 else fh1\<lparr>console := console fh1 @ [LOG_STOPPED]\<rparr>))"


section \<open>Sequences of packet-manager operations\<close>

text \<open>The public operations of \<open>PacketManager\<close> that change it, as values, and a run of them.\<close>

datatype pm_op =
  Op_process_packet u64 "u8 list option" u64
| Op_get_ready_packets
| Op_process_gap_fill u64 u64
| Op_periodic_maintenance u64
| Op_trigger_resync

fun apply_op :: "pm_op \<Rightarrow> PacketManager \<Rightarrow> PacketManager" where
  "apply_op (Op_process_packet sequence data timestamp) pm = snd (process_packet sequence data timestamp pm)"
| "apply_op Op_get_ready_packets pm = snd (get_ready_packets pm)"
| "apply_op (Op_process_gap_fill s e) pm = process_gap_fill s e pm"
| "apply_op (Op_periodic_maintenance now) pm = periodic_maintenance now pm"
| "apply_op Op_trigger_resync pm = trigger_resync pm"

text \<open>
  When an operation cannot lower \<open>next_expected\<close>. A packet that is in the duplicate
  window changes nothing. A new packet in the Initial state sets \<open>next_expected\<close> to its
  sequence plus one, so that must not be below the old value. A new packet in the Live
  or Recovering state that is the expected one increments \<open>next_expected\<close>, and a drain
  adds the number of packets it returns: neither may overflow 64 bits. The other
  operations leave \<open>next_expected\<close> alone.
\<close>

fun op_ok :: "pm_op \<Rightarrow> PacketManager \<Rightarrow> bool" where
  "op_ok (Op_process_packet sequence data timestamp) pm =
     (if is_duplicate pm sequence then True
      else (case state pm of
              INITIAL \<Rightarrow> next_expected_seq pm \<le> sequence + 1
            | LIVE \<Rightarrow> sequence \<noteq> next_expected_seq pm \<or> unat (next_expected_seq pm) + 1 < 2 ^ 64
            | RECOVERING \<Rightarrow>
                sequence \<noteq> next_expected_seq pm \<or> unat (next_expected_seq pm) + 1 < 2 ^ 64
            | STALE \<Rightarrow> True))"
| "op_ok Op_get_ready_packets pm =
     (unat (next_expected_seq pm) + length (fst (get_ready_packets pm)) < 2 ^ 64)"
| "op_ok (Op_process_gap_fill s e) pm = True"
| "op_ok (Op_periodic_maintenance now) pm = True"
| "op_ok Op_trigger_resync pm = True"

fun ops_ok :: "pm_op list \<Rightarrow> PacketManager \<Rightarrow> bool" where
  "ops_ok [] pm = True"
| "ops_ok (x # xs) pm = (op_ok x pm \<and> ops_ok xs (apply_op x pm))"

text \<open>The manager before the first operation and after each one, in order.\<close>

fun op_states :: "pm_op list \<Rightarrow> PacketManager \<Rightarrow> PacketManager list" where
  "op_states [] pm = [pm]"
| "op_states (x # xs) pm = pm # op_states xs (apply_op x pm)"


section \<open>A single pending gap\<close>

text \<open>
  What maintenance keeps true of a single pending gap whose request was the callback's
  invocation number \<open>c + 1\<close>: every retry so far has invoked the callback once more, and
  the state is Stale only when the retries are used up.
\<close>

definition single_gap :: "nat \<Rightarrow> PacketManager \<Rightarrow> bool" where
  "single_gap c pm =
     (\<exists>g. pending_gaps pm = [g] \<and> retry_count g \<le> MAX_RETRIES \<and> gap_fill_callback pm \<and>
          length (callback_calls pm) = c + 1 + unat (retry_count g) \<and>
          (state pm = RECOVERING \<or> state pm = STALE \<and> retry_count g = MAX_RETRIES))"


section \<open>The duplicate window\<close>

text \<open>
  What \<open>mark_seen\<close> keeps true of the deque and the hash set: the set holds exactly the
  deque's sequences, each once, and the deque is no longer than the window size.
\<close>

definition window_inv :: "PacketManager \<Rightarrow> bool" where
  "window_inv pm =
     (recent_seq_set pm = set (recent_sequences pm) \<and> distinct (recent_sequences pm) \<and>
      length (recent_sequences pm) \<le> DUPLICATE_WINDOW_SIZE)"

definition process_packets :: "(u64 \<times> u8 list option \<times> u64) list \<Rightarrow> PacketManager \<Rightarrow> PacketManager" where
  "process_packets pkts pm =
     fold (\<lambda>(sequence, data, timestamp) pm. snd (process_packet sequence data timestamp pm)) pkts pm"

section \<open>Invariants of the packet manager\<close>

text \<open>
  What every operation keeps true, starting from a fresh manager: a gap is pending in the
  Recovering state and none in the Live and Initial states; the reorder buffer is a map
  of at most \<open>MAX_RESEQUENCE_BUFFER_SIZE\<close> entries; and the duplicate window's set and
  deque agree.
\<close>

definition gaps_ok :: "PacketManager \<Rightarrow> bool" where
  "gaps_ok pm =
     ((state pm = RECOVERING \<longrightarrow> pending_gaps pm \<noteq> []) \<and>
      (state pm = LIVE \<or> state pm = INITIAL \<longrightarrow> pending_gaps pm = []))"

definition buffer_ok :: "PacketManager \<Rightarrow> bool" where
  "buffer_ok pm =
     (map_wf (resequence_buffer pm) \<and>
      length (resequence_buffer pm) \<le> MAX_RESEQUENCE_BUFFER_SIZE)"

definition pm_inv :: "PacketManager \<Rightarrow> bool" where
  "pm_inv pm = (gaps_ok pm \<and> buffer_ok pm \<and> window_inv pm)"


section \<open>Concrete inputs\<close>

text \<open>
  A trade datagram of 52 bytes: the header (type \<open>TRADE\<close>, version 1, \<open>payload_size\<close>
  40, sequence 1) and all 40 bytes of a \<open>TradeMessage\<close>.
\<close>

definition short_trade_datagram :: "u8 list" where
  "short_trade_datagram =
     [0x01, 0x01, 0x28, 0x00, 0x01, 0, 0, 0, 0, 0, 0, 0] @ replicate 40 0x07"

text \<open>
  The manager after the packets 1, 5, 6, 8, 2, 3 (each drained after) and then packet 4,
  before its drain: 5 is expected, and 5, 6 and 8 are in the reorder buffer.
\<close>

definition drain_example :: PacketManager where
  "drain_example =
     snd (process_packet 4 (Some [40]) 0
       (fst (sequence_packets
          [(1, [10], 0), (5, [50], 0), (6, [60], 0), (8, [80], 0), (2, [20], 0), (3, [30], 0)]
          (init_pm True, []))))"

text \<open>The packets of sequences \<open>1, ..., n\<close>, without data, at time 0.\<close>

definition fresh_packets :: "nat \<Rightarrow> (u64 \<times> u8 list option \<times> u64) list" where
  "fresh_packets n = map (\<lambda>k. (of_nat k, None, 0)) [1..<Suc n]"


section \<open>Frame lemmas\<close>

text \<open>What each operation of the packet manager leaves alone.\<close>

lemma mark_seen_frame:
  "state (mark_seen s pm) = state pm"
  "next_expected_seq (mark_seen s pm) = next_expected_seq pm"
  "pending_gaps (mark_seen s pm) = pending_gaps pm"
  "resequence_buffer (mark_seen s pm) = resequence_buffer pm"
  "stats (mark_seen s pm) = stats pm"
  "gap_fill_callback (mark_seen s pm) = gap_fill_callback pm"
  "callback_calls (mark_seen s pm) = callback_calls pm"
  "highest_seq_seen (mark_seen s pm) = highest_seq_seen pm"
  by (simp_all add: mark_seen_def Let_def split: list.splits)

lemma buffer_if_data_frame:
  "state (buffer_if_data s d pm) = state pm"
  "next_expected_seq (buffer_if_data s d pm) = next_expected_seq pm"
  "pending_gaps (buffer_if_data s d pm) = pending_gaps pm"
  "gap_fill_callback (buffer_if_data s d pm) = gap_fill_callback pm"
  "callback_calls (buffer_if_data s d pm) = callback_calls pm"
  "recent_sequences (buffer_if_data s d pm) = recent_sequences pm"
  "recent_seq_set (buffer_if_data s d pm) = recent_seq_set pm"
  by (simp_all add: buffer_if_data_def buffer_packet_def Let_def split: option.splits)

lemma process_gap_fill_frame:
  "next_expected_seq (process_gap_fill s e pm) = next_expected_seq pm"
  "resequence_buffer (process_gap_fill s e pm) = resequence_buffer pm"
  "callback_calls (process_gap_fill s e pm) = callback_calls pm"
  "recent_sequences (process_gap_fill s e pm) = recent_sequences pm"
  "recent_seq_set (process_gap_fill s e pm) = recent_seq_set pm"
  "state pm = STALE \<Longrightarrow> state (process_gap_fill s e pm) = STALE"
  by (simp_all add: process_gap_fill_def Let_def)

lemma maintenance_loop_snd_Cons:
  "snd (maintenance_loop now (gap # gaps) pm) =
     snd (maintenance_loop now gaps
       (if now - request_time_ns gap > GAP_TIMEOUT_NS then
          (if retry_count gap < MAX_RETRIES
           then invoke_callback (gap\<lparr>retry_count := retry_count gap + 1, request_time_ns := now\<rparr>) pm
           else pm\<lparr>state := STALE\<rparr>)
        else pm))"
  by (simp add: Let_def split: prod.splits)

lemma maintenance_loop_frame:
  "next_expected_seq (snd (maintenance_loop now gaps pm)) = next_expected_seq pm \<and>
   resequence_buffer (snd (maintenance_loop now gaps pm)) = resequence_buffer pm \<and>
   (state pm = STALE \<longrightarrow> state (snd (maintenance_loop now gaps pm)) = STALE)"
proof (induction gaps arbitrary: pm)
  case Nil
  show ?case by simp
next
  case (Cons gap gaps)
  show ?case
    unfolding maintenance_loop_snd_Cons
    by (simp add: Cons.IH invoke_callback_def)
qed

lemma periodic_maintenance_frame:
  "next_expected_seq (periodic_maintenance now pm) = next_expected_seq pm"
  "resequence_buffer (periodic_maintenance now pm) = resequence_buffer pm"
  "state pm = STALE \<Longrightarrow> state (periodic_maintenance now pm) = STALE"
  using maintenance_loop_frame[of now "pending_gaps pm" pm]
  by (auto simp: periodic_maintenance_def split: prod.splits)



text \<open>Unfolding the definitions evaluates the packet manager on concrete packets.\<close>

lemmas pm_eval =
  sequence_packets_def sequence_packet_def process_packet_def init_pm_def init_stats_def
  is_duplicate_def mark_seen_def DUPLICATE_WINDOW_SIZE_def handle_initial_state_def
  handle_live_state_def handle_recovering_state_def get_ready_packets_def MAX_GAP_SIZE_def
  invoke_callback_def buffer_if_data_def buffer_packet_def MAX_RESEQUENCE_BUFFER_SIZE_def
  map_erase_def map_erase_begin_def get_ready_loop.simps process_gap_fill_def Let_def

section \<open>The drain loop\<close>

lemma map_of_map_erase:
  "map_of (map_erase k m) k' = (if k' = k then None else map_of m k')"
  by (induction m) (auto simp: map_erase_def)

lemma get_ready_loop_spec:
  "get_ready_loop pm acc = (r, pm') \<Longrightarrow>
    \<exists>ready. r = acc @ ready \<and>
      (\<forall>i<length ready. map_of (resequence_buffer pm) (next_expected_seq pm + of_nat i) = Some (ready ! i)) \<and>
      pm' = pm\<lparr>resequence_buffer := filter (\<lambda>kv. fst kv \<notin> (\<lambda>i. next_expected_seq pm + of_nat i) ` {..<length ready}) (resequence_buffer pm),
               next_expected_seq := next_expected_seq pm + of_nat (length ready),
               stats := (stats pm)\<lparr>resequenced := resequenced (stats pm) + of_nat (length ready)\<rparr>\<rparr> \<and>
      map_of (resequence_buffer pm') (next_expected_seq pm') = None \<and>
      length ready + length (resequence_buffer pm') \<le> length (resequence_buffer pm)"
proof (induction pm acc arbitrary: r pm' rule: get_ready_loop.induct)
  case (1 pm acc)
  let ?buf = "resequence_buffer pm"
  let ?n = "next_expected_seq pm"
  show ?case
  proof (cases "map_of ?buf ?n")
    case None
    with "1.prems" have "r = acc" "pm' = pm"
      by (auto simp: get_ready_loop.simps[of pm acc] split: if_splits)
    with None show ?thesis by simp
  next
    case (Some d)
    then have ne: "?buf \<noteq> []" by auto
    let ?pm1 = "pm\<lparr>resequence_buffer := map_erase ?n ?buf, next_expected_seq := ?n + 1,
                   stats := (stats pm)\<lparr>resequenced := resequenced (stats pm) + 1\<rparr>\<rparr>"
    from "1.prems" Some ne have rec: "get_ready_loop ?pm1 (acc @ [d]) = (r, pm')"
      by (simp add: get_ready_loop.simps[of pm acc])
    from "1.IH"[OF ne Some rec] obtain ready1 where
      r: "r = (acc @ [d]) @ ready1" and
      look: "\<forall>i<length ready1. map_of (map_erase ?n ?buf) (?n + 1 + of_nat i) = Some (ready1 ! i)" and
      pm': "pm' = ?pm1\<lparr>resequence_buffer := filter (\<lambda>kv. fst kv \<notin> (\<lambda>i. ?n + 1 + of_nat i) ` {..<length ready1}) (map_erase ?n ?buf),
               next_expected_seq := ?n + 1 + of_nat (length ready1),
               stats := (stats ?pm1)\<lparr>resequenced := resequenced (stats ?pm1) + of_nat (length ready1)\<rparr>\<rparr>" and
      stop: "map_of (resequence_buffer pm') (next_expected_seq pm') = None" and
      len: "length ready1 + length (resequence_buffer pm') \<le> length (map_erase ?n ?buf)"
      by auto
    let ?ready = "d # ready1"
    have img: "(\<lambda>i. ?n + of_nat i) ` {..<length ?ready} = insert ?n ((\<lambda>i. ?n + 1 + of_nat i) ` {..<length ready1})"
    proof -
      have "{..<length ?ready} = insert 0 (Suc ` {..<length ready1})"
        by (auto simp: lessThan_Suc_eq_insert_0)
      then show ?thesis by (simp add: image_image add.assoc)
    qed
    have a: "r = acc @ ?ready" using r by simp
    have b: "\<forall>i<length ?ready. map_of ?buf (?n + of_nat i) = Some (?ready ! i)"
    proof (intro allI impI)
      fix i assume i: "i < length ?ready"
      show "map_of ?buf (?n + of_nat i) = Some (?ready ! i)"
      proof (cases i)
        case 0
        with Some show ?thesis by simp
      next
        case (Suc j)
        with i have "j < length ready1" by simp
        with look have "map_of (map_erase ?n ?buf) (?n + 1 + of_nat j) = Some (ready1 ! j)" by blast
        then have "map_of ?buf (?n + 1 + of_nat j) = Some (ready1 ! j)"
          by (simp add: map_of_map_erase split: if_splits)
        with Suc show ?thesis by (simp add: add.assoc)
      qed
    qed
    have flt: "filter (\<lambda>kv. fst kv \<notin> (\<lambda>i. ?n + 1 + of_nat i) ` {..<length ready1}) (map_erase ?n ?buf)
         = filter (\<lambda>kv. fst kv \<notin> (\<lambda>i. ?n + of_nat i) ` {..<length ?ready}) ?buf"
      unfolding img map_erase_def by (auto intro: filter_cong)
    have c: "pm' = pm\<lparr>resequence_buffer := filter (\<lambda>kv. fst kv \<notin> (\<lambda>i. ?n + of_nat i) ` {..<length ?ready}) ?buf,
               next_expected_seq := ?n + of_nat (length ?ready),
               stats := (stats pm)\<lparr>resequenced := resequenced (stats pm) + of_nat (length ?ready)\<rparr>\<rparr>"
      unfolding pm' flt by (simp add: add.assoc add.commute)
    have "length (map_erase ?n ?buf) < length ?buf"
      using Some by (auto simp: map_erase_def dest!: map_of_SomeD intro: length_filter_less)
    with len have e: "length ?ready + length (resequence_buffer pm') \<le> length ?buf" by simp
    from a b c stop e show ?thesis by blast
  qed
qed


lemma get_ready_packets_spec:
  obtains ready pm' where
    "get_ready_packets pm = (ready, pm')"
    "\<forall>i<length ready. map_of (resequence_buffer pm) (next_expected_seq pm + of_nat i) = Some (ready ! i)"
    "pm' = pm\<lparr>resequence_buffer := filter (\<lambda>kv. fst kv \<notin> (\<lambda>i. next_expected_seq pm + of_nat i) ` {..<length ready}) (resequence_buffer pm),
               next_expected_seq := next_expected_seq pm + of_nat (length ready),
               stats := (stats pm)\<lparr>resequenced := resequenced (stats pm) + of_nat (length ready)\<rparr>\<rparr>"
    "map_of (resequence_buffer pm') (next_expected_seq pm') = None"
    "length ready + length (resequence_buffer pm') \<le> length (resequence_buffer pm)"
proof -
  obtain r pm' where g: "get_ready_loop pm [] = (r, pm')" by (cases "get_ready_loop pm []")
  from get_ready_loop_spec[OF g] obtain ready where
    "r = [] @ ready"
    "\<forall>i<length ready. map_of (resequence_buffer pm) (next_expected_seq pm + of_nat i) = Some (ready ! i)"
    "pm' = pm\<lparr>resequence_buffer := filter (\<lambda>kv. fst kv \<notin> (\<lambda>i. next_expected_seq pm + of_nat i) ` {..<length ready}) (resequence_buffer pm),
               next_expected_seq := next_expected_seq pm + of_nat (length ready),
               stats := (stats pm)\<lparr>resequenced := resequenced (stats pm) + of_nat (length ready)\<rparr>\<rparr>"
    "map_of (resequence_buffer pm') (next_expected_seq pm') = None"
    "length ready + length (resequence_buffer pm') \<le> length (resequence_buffer pm)"
    by blast
  moreover from this g have "get_ready_packets pm = (ready, pm')"
    by (simp add: get_ready_packets_def)
  ultimately show thesis using that by blast
qed

section \<open>Idempotence of process\_gap\_fill (C4)\<close>

text \<open>
  C4, as stated: calling \<open>process_gap_fill(s, e)\<close> twice leaves the state identical to
  calling it once. On the code this fails at the first try: \<open>stats_.gaps_filled++\<close> runs on
  every call, whether or not a request was removed.
\<close>

theorem process_gap_fill_not_idempotent:
  "process_gap_fill 3 4 (process_gap_fill 3 4 (init_pm True)) \<noteq>
   process_gap_fill 3 4 (init_pm True)"
  by (simp add: process_gap_fill_def Let_def init_pm_def init_stats_def)

text \<open>
  C4, amended: the second call of \<open>process_gap_fill(s, e)\<close> changes nothing but the counter
  \<open>gaps_filled\<close>, which it increments once more; the pending gaps, the feed state,
  \<open>next_expected\<close>, the buffers, the duplicate window and every other counter are as the
  first call left them.
\<close>

theorem process_gap_fill_twice:
  "process_gap_fill s e (process_gap_fill s e pm) =
     (process_gap_fill s e pm)\<lparr>stats := (stats (process_gap_fill s e pm))
        \<lparr>gaps_filled := gaps_filled (stats (process_gap_fill s e pm)) + 1\<rparr>\<rparr>"
  by (simp add: process_gap_fill_def Let_def)


section \<open>Oversized gap (C3)\<close>







section \<open>Minimum datagram length (C10)\<close>

lemma sizeof_MarketDataPacket_268: "sizeof_MarketDataPacket = 268"
  by (simp add: sizeof_MarketDataPacket_def sizeof_header_def sizeof_payload_def
      sizeof_TradeMessage_def sizeof_QuoteMessage_def)

text \<open>
  C10: \<open>sizeof(MarketDataPacket)\<close> is 268 bytes, the 12-byte header and the 256-byte
  payload union, and \<open>FeedHandler::process_packet\<close> returns at once on a datagram
  shorter than that, however complete its header and its payload of \<open>payload_size\<close>
  bytes are: the packet manager, the ring and the counters are untouched. The path for
  drained packets, \<open>process_buffered_packet\<close>, has the same guard. So only datagrams of
  at least 268 bytes are sequenced or delivered.
\<close>

theorem short_datagram_dropped:
  "sizeof_MarketDataPacket = 268 \<and>
   (length bs < sizeof_MarketDataPacket \<longrightarrow>
      fh_process_packet bs tsc fh = fh \<and> process_buffered_packet bs tsc fh = fh)"
  by (simp add: sizeof_MarketDataPacket_268 fh_process_packet_def process_buffered_packet_def)

theorem short_datagram_dropped_witness:
  "pkt_msg_type short_trade_datagram = TRADE \<and>
   pkt_packet_sequence short_trade_datagram = 1 \<and>
   sizeof_header + unat (pkt_payload_size short_trade_datagram) = length short_trade_datagram \<and>
   length short_trade_datagram < sizeof_MarketDataPacket \<and>
   fh_process_packet short_trade_datagram 0 init_fh = init_fh"
  using short_datagram_dropped [of short_trade_datagram 0 init_fh]
  by (simp add: short_trade_datagram_def pkt_msg_type_def pkt_packet_sequence_def
      pkt_payload_size_def read_u8_def read_u16_def read_u64_def TRADE_def sizeof_header_def)

section \<open>Exits of the ingest loop (C2)\<close>

text \<open>
  C2, as stated: no result of the receive ends the loop, which returns only when the
  running flag is cleared. On the code the error branch of \<open>run\<close> writes
  "Receive error" and leaves the loop with \<open>break\<close>: with the flag set throughout, a
  failed receive in the first iteration ends the loop and the second iteration never
  runs.
\<close>

theorem receive_error_ends_loop:
  "run 0 [\<lparr>running = True, current_time = 1, received = Recv_failed, recv_tsc = 2\<rparr>,
          \<lparr>running = True, current_time = 3, received = Datagram [], recv_tsc = 4\<rparr>] init_fh =
   (Receive_error, init_fh\<lparr>console := [LOG_STARTED, LOG_RECEIVE_ERROR, LOG_STOPPED]\<rparr>)"
  by (simp add: run_def init_fh_def maintenance_tick_def bytes_received_def
      MAINTENANCE_INTERVAL_NS_def)

text \<open>
  C2, amended: the ingest loop goes on to its next iteration after an empty receive and
  after a received datagram; on a receive error it writes the error line and leaves the
  loop at once. So the loop returns at the first iteration that finds the running flag
  cleared or whose receive fails, whichever comes first, and at no other.
\<close>

theorem ingest_loop_exit:
  "fst (run_loop inputs fh) =
     (case find (\<lambda>i. \<not> running i \<or> bytes_received (received i) < 0) inputs of
        None \<Rightarrow> Still_running
      | Some i \<Rightarrow> if running i then Receive_error else Flag_cleared) \<and>
   (running i \<and> received i = Recv_failed \<longrightarrow>
      run_loop (i # rest) fh =
        (Receive_error,
         (maintenance_tick (current_time i) fh)
           \<lparr>console := console (maintenance_tick (current_time i) fh) @ [LOG_RECEIVE_ERROR]\<rparr>)) \<and>
   (running i \<and> received i = Datagram bs \<longrightarrow>
      run_loop (i # rest) fh =
        run_loop rest
          (if bs = [] then maintenance_tick (current_time i) fh
           else on_datagram bs (recv_tsc i) (maintenance_tick (current_time i) fh)))"
proof (intro conjI impI)
  show "fst (run_loop inputs fh) =
     (case find (\<lambda>i. \<not> running i \<or> bytes_received (received i) < 0) inputs of
        None \<Rightarrow> Still_running
      | Some i \<Rightarrow> if running i then Receive_error else Flag_cleared)"
    by (induction inputs arbitrary: fh) (auto simp: Let_def)
next
  assume "running i \<and> received i = Recv_failed"
  then show "run_loop (i # rest) fh =
        (Receive_error,
         (maintenance_tick (current_time i) fh)
           \<lparr>console := console (maintenance_tick (current_time i) fh) @ [LOG_RECEIVE_ERROR]\<rparr>)"
    by (simp add: bytes_received_def Let_def)
next
  assume "running i \<and> received i = Datagram bs"
  then show "run_loop (i # rest) fh =
        run_loop rest
          (if bs = [] then maintenance_tick (current_time i) fh
           else on_datagram bs (recv_tsc i) (maintenance_tick (current_time i) fh))"
    by (simp add: bytes_received_def Let_def)
qed

theorem ingest_loop_exit_witness:
  "fst (run_loop [\<lparr>running = True, current_time = 1, received = Datagram [], recv_tsc = 2\<rparr>,
                  \<lparr>running = True, current_time = 3, received = Recv_failed, recv_tsc = 4\<rparr>,
                  \<lparr>running = False, current_time = 5, received = Datagram [], recv_tsc = 6\<rparr>] init_fh)
     = Receive_error \<and>
   fst (run_loop [\<lparr>running = True, current_time = 1, received = Datagram [], recv_tsc = 2\<rparr>,
                  \<lparr>running = False, current_time = 5, received = Recv_failed, recv_tsc = 6\<rparr>] init_fh)
     = Flag_cleared \<and>
   run_loop [\<lparr>running = True, current_time = 3, received = Recv_failed, recv_tsc = 4\<rparr>,
             \<lparr>running = True, current_time = 5, received = Datagram [], recv_tsc = 6\<rparr>] init_fh
     = (Receive_error, init_fh\<lparr>console := [LOG_RECEIVE_ERROR]\<rparr>) \<and>
   run_loop [\<lparr>running = True, current_time = 1, received = Datagram [], recv_tsc = 2\<rparr>] init_fh
     = (Still_running, init_fh)"
  using ingest_loop_exit [of "[\<lparr>running = True, current_time = 1, received = Datagram [], recv_tsc = 2\<rparr>,
                  \<lparr>running = True, current_time = 3, received = Recv_failed, recv_tsc = 4\<rparr>,
                  \<lparr>running = False, current_time = 5, received = Datagram [], recv_tsc = 6\<rparr>]" init_fh
                  "\<lparr>running = True, current_time = 3, received = Recv_failed, recv_tsc = 4\<rparr>"
                  "[\<lparr>running = True, current_time = 5, received = Datagram [], recv_tsc = 6\<rparr>]"]
    ingest_loop_exit [of "[\<lparr>running = True, current_time = 1, received = Datagram [], recv_tsc = 2\<rparr>,
                  \<lparr>running = False, current_time = 5, received = Recv_failed, recv_tsc = 6\<rparr>]" init_fh
                  "\<lparr>running = True, current_time = 1, received = Datagram [], recv_tsc = 2\<rparr>" "[]" "[]"]
  by (simp add: bytes_received_def init_fh_def maintenance_tick_def MAINTENANCE_INTERVAL_NS_def)


section \<open>Monotonicity of next\_expected (C5)\<close>

lemma gap_scan_next: "next_expected_seq (snd (gap_scan sequence gs pm)) = next_expected_seq pm"
  by (induction gs) (simp_all add: process_gap_fill_frame)

text \<open>What \<open>process_packet\<close> does to \<open>next_expected\<close>, case by case.\<close>

lemma process_packet_next:
  "next_expected_seq (snd (process_packet sequence data timestamp pm)) =
     (if is_duplicate pm sequence then next_expected_seq pm
      else (case state pm of
              INITIAL \<Rightarrow> sequence + 1
            | LIVE \<Rightarrow> if sequence = next_expected_seq pm then next_expected_seq pm + 1
                      else next_expected_seq pm
            | RECOVERING \<Rightarrow> if sequence = next_expected_seq pm then next_expected_seq pm + 1
                            else next_expected_seq pm
            | STALE \<Rightarrow> next_expected_seq pm))"
  by (cases "state pm")
     (simp_all add: process_packet_def Let_def is_duplicate_def mark_seen_frame
        handle_initial_state_def handle_live_state_def handle_recovering_state_def
        buffer_if_data_frame invoke_callback_def gap_scan_next)

lemma get_ready_packets_count:
  "next_expected_seq (snd (get_ready_packets pm)) =
     next_expected_seq pm + of_nat (length (fst (get_ready_packets pm))) \<and>
   length (fst (get_ready_packets pm)) \<le> length (resequence_buffer pm)"
proof (rule get_ready_packets_spec[of pm])
  fix ready :: "u8 list list" and pm' :: PacketManager
  assume g: "get_ready_packets pm = (ready, pm')"
    and pm': "pm' = pm\<lparr>resequence_buffer := filter (\<lambda>kv. fst kv \<notin> (\<lambda>i. next_expected_seq pm + of_nat i) ` {..<length ready}) (resequence_buffer pm),
               next_expected_seq := next_expected_seq pm + of_nat (length ready),
               stats := (stats pm)\<lparr>resequenced := resequenced (stats pm) + of_nat (length ready)\<rparr>\<rparr>"
    and len: "length ready + length (resequence_buffer pm') \<le> length (resequence_buffer pm)"
  have "next_expected_seq pm' = next_expected_seq pm + of_nat (length ready)"
    by (subst pm') simp
  with len g show ?thesis by simp
qed

lemma word_le_succ_iff: "((x::u64) \<le> x + 1) = (unat x + 1 < 2 ^ 64)"
  using no_olen_add_nat[of x 1] by simp

lemma word_le_add_nat_iff:
  "k < 2 ^ 64 \<Longrightarrow> ((x::u64) \<le> x + of_nat k) = (unat x + k < 2 ^ 64)"
  using no_olen_add_nat[of x "of_nat k"] by (simp add: unat_of_nat)

lemma word_le_add_nat: "unat (x::u64) + k < 2 ^ 64 \<Longrightarrow> x \<le> x + of_nat k"
  by (simp add: word_le_nat_alt unat_word_ariths unat_of_nat)

lemma apply_op_next:
  "op_ok x pm \<Longrightarrow> next_expected_seq pm \<le> next_expected_seq (apply_op x pm)"
proof (cases x)
  case (Op_process_packet sequence data timestamp)
  assume "op_ok x pm"
  with Op_process_packet show ?thesis
    by (cases "state pm")
       (auto simp: process_packet_next word_le_succ_iff split: if_splits)
next
  case Op_get_ready_packets
  assume "op_ok x pm"
  with Op_get_ready_packets show ?thesis
    using get_ready_packets_count[of pm] by (simp add: word_le_add_nat)
next
  case (Op_process_gap_fill s e)
  then show ?thesis by (simp add: process_gap_fill_frame)
next
  case (Op_periodic_maintenance now)
  then show ?thesis by (simp add: periodic_maintenance_frame)
next
  case Op_trigger_resync
  then show ?thesis by (simp add: trigger_resync_def)
qed

lemma apply_op_next_only:
  assumes "length (resequence_buffer pm) < 2 ^ 64"
    "next_expected_seq pm \<le> next_expected_seq (apply_op x pm)"
  shows "op_ok x pm"
proof (cases x)
  case (Op_process_packet sequence data timestamp)
  with assms(2) show ?thesis
    by (cases "state pm")
       (auto simp: process_packet_next word_le_succ_iff split: if_splits)
next
  case Op_get_ready_packets
  from get_ready_packets_count[of pm] assms(1)
  have k: "length (fst (get_ready_packets pm)) < 2 ^ 64"
    and n: "next_expected_seq (snd (get_ready_packets pm)) =
      next_expected_seq pm + of_nat (length (fst (get_ready_packets pm)))"
    by simp_all
  from assms(2) Op_get_ready_packets show ?thesis
    by (simp add: n word_le_add_nat_iff[OF k])
qed simp_all

lemma ops_ok_sorted:
  "ops_ok ops pm \<Longrightarrow> sorted (map next_expected_seq (op_states ops pm))"
proof (induction ops arbitrary: pm)
  case Nil
  show ?case by simp
next
  case (Cons x xs)
  then have step: "next_expected_seq pm \<le> next_expected_seq (apply_op x pm)"
    and rest: "sorted (map next_expected_seq (op_states xs (apply_op x pm)))"
    by (simp_all add: apply_op_next)
  obtain p ps where o: "op_states xs (apply_op x pm) = p # ps" "p = apply_op x pm"
    by (cases xs) simp_all
  from rest step show ?case
    unfolding op_states.simps o(1) using o(2) by (auto simp: order_trans)
qed

lemma ops_ok_final:
  "ops_ok ops pm \<Longrightarrow> next_expected_seq pm \<le> next_expected_seq (fold apply_op ops pm)"
proof (induction ops arbitrary: pm)
  case Nil
  show ?case by simp
next
  case (Cons x xs)
  then have "next_expected_seq pm \<le> next_expected_seq (apply_op x pm)"
    and "next_expected_seq (apply_op x pm) \<le> next_expected_seq (fold apply_op xs (apply_op x pm))"
    by (simp_all add: apply_op_next)
  then show ?case by simp
qed

text \<open>
  C5, as stated: no operation of the packet manager lowers \<open>next_expected\<close>. On the code
  \<open>handle_initial_state\<close> accepts any sequence and sets \<open>next_expected\<close> to its successor,
  and \<open>trigger_resync\<close> returns to the Initial state without touching \<open>next_expected\<close>:
  after packet 10 and a resync, packet 3 takes \<open>next_expected\<close> from 11 down to 4. And
  the counter is 64 bits wide: after the first packet \<open>2 ^ 64 - 2\<close> the expected packet
  \<open>2 ^ 64 - 1\<close> takes \<open>next_expected\<close> from \<open>2 ^ 64 - 1\<close> to 0.
\<close>

theorem next_expected_regresses_after_resync:
  "next_expected_seq (trigger_resync (snd (process_packet 10 None 0 (init_pm True)))) = 11 \<and>
   next_expected_seq (snd (process_packet 3 None 0
      (trigger_resync (snd (process_packet 10 None 0 (init_pm True)))))) = 4 \<and>
   next_expected_seq (snd (process_packet 18446744073709551614 None 0 (init_pm True))) =
     18446744073709551615 \<and>
   next_expected_seq (snd (process_packet 18446744073709551615 None 0
      (snd (process_packet 18446744073709551614 None 0 (init_pm True))))) = 0"
  by (simp add: process_packet_def trigger_resync_def init_pm_def init_stats_def is_duplicate_def
      mark_seen_def handle_initial_state_def handle_live_state_def Let_def
      DUPLICATE_WINDOW_SIZE_def)

text \<open>
  C5, amended: across every sequence of packet-manager operations (\<open>process_packet\<close>,
  \<open>get_ready_packets\<close>, \<open>process_gap_fill\<close>, \<open>periodic_maintenance\<close>, \<open>trigger_resync\<close>),
  \<open>next_expected\<close> after an operation is greater than or equal to its value before the
  operation, provided that at each operation (\<open>op_ok\<close>)
  \<^item> a packet that is processed in the Initial state and is not in the duplicate window
    has a sequence with \<open>sequence + 1\<close> (in 64 bits) not below \<open>next_expected\<close>, and
  \<^item> \<open>next_expected\<close> does not overflow 64 bits: a packet that is not in the duplicate
    window and arrives as \<open>next_expected\<close> in the Live or Recovering state finds
    \<open>next_expected\<close> below \<open>2 ^ 64 - 1\<close>, and \<open>next_expected\<close> plus the number of
    packets a \<open>get_ready_packets\<close> returns is below \<open>2 ^ 64\<close>.
  For a reorder buffer of fewer than \<open>2 ^ 64\<close> entries an operation outside these
  conditions does lower \<open>next_expected\<close>. Every packet is within them on a fresh manager,
  where \<open>next_expected\<close> is 0. A packet that is processed in the Initial state and is
  not in the duplicate window sets \<open>next_expected\<close> to its sequence plus one.
\<close>

theorem next_expected_monotone:
  "(op_ok x pm \<longrightarrow> next_expected_seq pm \<le> next_expected_seq (apply_op x pm)) \<and>
   (ops_ok ops pm \<longrightarrow>
      sorted (map next_expected_seq (op_states ops pm)) \<and>
      next_expected_seq pm \<le> next_expected_seq (fold apply_op ops pm)) \<and>
   (length (resequence_buffer pm) < 2 ^ 64 \<and>
    next_expected_seq pm \<le> next_expected_seq (apply_op x pm) \<longrightarrow> op_ok x pm) \<and>
   op_ok (Op_process_packet sequence data timestamp) (init_pm cb) \<and>
   (state pm = INITIAL \<and> \<not> is_duplicate pm sequence \<longrightarrow>
      next_expected_seq (snd (process_packet sequence data timestamp pm)) = sequence + 1)"
proof (intro conjI impI)
  assume "op_ok x pm"
  then show "next_expected_seq pm \<le> next_expected_seq (apply_op x pm)" by (rule apply_op_next)
next
  assume "ops_ok ops pm"
  then show "sorted (map next_expected_seq (op_states ops pm))" by (rule ops_ok_sorted)
next
  assume "ops_ok ops pm"
  then show "next_expected_seq pm \<le> next_expected_seq (fold apply_op ops pm)"
    by (rule ops_ok_final)
next
  assume "length (resequence_buffer pm) < 2 ^ 64 \<and>
    next_expected_seq pm \<le> next_expected_seq (apply_op x pm)"
  then show "op_ok x pm" using apply_op_next_only by blast
next
  show "op_ok (Op_process_packet sequence data timestamp) (init_pm cb)"
    by (simp add: init_pm_def is_duplicate_def)
next
  assume "state pm = INITIAL \<and> \<not> is_duplicate pm sequence"
  then show "next_expected_seq (snd (process_packet sequence data timestamp pm)) = sequence + 1"
    by (simp add: process_packet_next)
qed

theorem next_expected_monotone_witness:
  "ops_ok [Op_process_packet 1 (Some [1]) 0, Op_get_ready_packets,
           Op_process_packet 2 (Some [2]) 0, Op_get_ready_packets,
           Op_process_packet 5 (Some [5]) 0, Op_get_ready_packets,
           Op_process_packet 3 (Some [3]) 0, Op_get_ready_packets, Op_periodic_maintenance 7,
           Op_process_packet 4 (Some [4]) 0, Op_get_ready_packets, Op_process_gap_fill 3 4,
           Op_trigger_resync, Op_process_packet 9 (Some [9]) 0, Op_get_ready_packets]
     (init_pm True) \<and>
   map next_expected_seq (op_states
          [Op_process_packet 1 (Some [1]) 0, Op_get_ready_packets,
           Op_process_packet 2 (Some [2]) 0, Op_get_ready_packets,
           Op_process_packet 5 (Some [5]) 0, Op_get_ready_packets,
           Op_process_packet 3 (Some [3]) 0, Op_get_ready_packets, Op_periodic_maintenance 7,
           Op_process_packet 4 (Some [4]) 0, Op_get_ready_packets, Op_process_gap_fill 3 4,
           Op_trigger_resync, Op_process_packet 9 (Some [9]) 0, Op_get_ready_packets]
          (init_pm True)) =
     [0, 2, 2, 3, 3, 3, 3, 4, 4, 4, 5, 6, 6, 6, 10, 10] \<and>
   op_ok (Op_process_packet 1 (Some [1]) 0) (init_pm True) \<and>
   state (init_pm True) = INITIAL \<and> \<not> is_duplicate (init_pm True) 1 \<and>
   length (resequence_buffer (init_pm True)) < 2 ^ 64 \<and>
   next_expected_seq (apply_op (Op_process_packet 1 (Some [1]) 0) (init_pm True)) = 2 \<and>
   \<not> op_ok (Op_process_packet 3 None 0)
       (trigger_resync (snd (process_packet 10 None 0 (init_pm True))))"
  using next_expected_monotone [of "Op_process_packet 1 (Some [1]) 0" "init_pm True"
          "[Op_process_packet 1 (Some [1]) 0, Op_get_ready_packets,
           Op_process_packet 2 (Some [2]) 0, Op_get_ready_packets,
           Op_process_packet 5 (Some [5]) 0, Op_get_ready_packets,
           Op_process_packet 3 (Some [3]) 0, Op_get_ready_packets, Op_periodic_maintenance 7,
           Op_process_packet 4 (Some [4]) 0, Op_get_ready_packets, Op_process_gap_fill 3 4,
           Op_trigger_resync, Op_process_packet 9 (Some [9]) 0, Op_get_ready_packets]"
          1 "Some [1]" 0 True]
  by (simp add: pm_eval periodic_maintenance_def trigger_resync_def GAP_TIMEOUT_NS_def)

section \<open>Gap-timeout escalation (C9)\<close>

lemma periodic_maintenance_single:
  "pending_gaps pm = [g] \<Longrightarrow>
   periodic_maintenance now pm =
     (if now - request_time_ns g > GAP_TIMEOUT_NS then
        (if retry_count g < MAX_RETRIES then
           (invoke_callback (g\<lparr>retry_count := retry_count g + 1, request_time_ns := now\<rparr>) pm)
             \<lparr>pending_gaps := [g\<lparr>retry_count := retry_count g + 1, request_time_ns := now\<rparr>]\<rparr>
         else pm\<lparr>state := STALE\<rparr>)
      else pm)"
  by (simp add: periodic_maintenance_def Let_def)

lemma timed_out:
  assumes "unat (request_time_ns g) + unat GAP_TIMEOUT_NS < unat now"
  shows "now - request_time_ns g > GAP_TIMEOUT_NS"
proof -
  from assms have le: "request_time_ns g \<le> now" by (simp add: word_le_nat_alt)
  then have "unat (now - request_time_ns g) = unat now - unat (request_time_ns g)"
    by (rule unat_sub)
  with assms show ?thesis by (simp add: word_less_nat_alt)
qed

lemma single_gap_tick:
  assumes "single_gap c pm"
  shows "single_gap c (periodic_maintenance now pm)"
proof -
  from assms obtain g where g: "pending_gaps pm = [g]" "retry_count g \<le> MAX_RETRIES"
    "gap_fill_callback pm" "length (callback_calls pm) = c + 1 + unat (retry_count g)"
    "state pm = RECOVERING \<or> state pm = STALE \<and> retry_count g = MAX_RETRIES"
    unfolding single_gap_def by blast
  show ?thesis
  proof (cases "now - request_time_ns g > GAP_TIMEOUT_NS")
    case False
    with g(1) have "periodic_maintenance now pm = pm" by (simp add: periodic_maintenance_single)
    with assms show ?thesis by simp
  next
    case True
    show ?thesis
    proof (cases "retry_count g < MAX_RETRIES")
      case True
      then have u: "unat (retry_count g + 1) = unat (retry_count g) + 1"
        by (simp add: MAX_RETRIES_def word_less_nat_alt unat_word_ariths)
      from True have le: "retry_count g + 1 \<le> MAX_RETRIES"
        by (simp add: MAX_RETRIES_def word_less_nat_alt word_le_nat_alt unat_word_ariths)
      from True g(5) have st: "state pm = RECOVERING" by auto
      let ?g' = "g\<lparr>retry_count := retry_count g + 1, request_time_ns := now\<rparr>"
      have pm: "periodic_maintenance now pm = (invoke_callback ?g' pm)\<lparr>pending_gaps := [?g']\<rparr>"
        using g(1) True \<open>now - request_time_ns g > GAP_TIMEOUT_NS\<close>
        by (simp add: periodic_maintenance_single)
      show ?thesis
        unfolding single_gap_def pm
        by (rule exI[of _ ?g']) (use g u le st in \<open>simp add: invoke_callback_def\<close>)
    next
      case False
      with g(2) have eq: "retry_count g = MAX_RETRIES" by simp
      have pm: "periodic_maintenance now pm = pm\<lparr>state := STALE\<rparr>"
        using g(1) False \<open>now - request_time_ns g > GAP_TIMEOUT_NS\<close>
        by (simp add: periodic_maintenance_single)
      show ?thesis
        unfolding single_gap_def pm
        by (rule exI[of _ g]) (use g eq in simp)
    qed
  qed
qed

lemma single_gap_ticks:
  "single_gap c pm \<Longrightarrow> single_gap c (fold periodic_maintenance ticks pm)"
  by (induction ticks arbitrary: pm) (simp_all add: single_gap_tick)

lemma single_gap_bound:
  assumes "single_gap c pm"
  shows "length (callback_calls pm) \<le> c + 4"
    and "state pm = STALE \<Longrightarrow> length (callback_calls pm) = c + 4"
    and "state pm = RECOVERING \<or> state pm = STALE"
proof -
  from assms obtain g where g: "pending_gaps pm = [g]" "retry_count g \<le> MAX_RETRIES"
    "length (callback_calls pm) = c + 1 + unat (retry_count g)"
    "state pm = RECOVERING \<or> state pm = STALE \<and> retry_count g = MAX_RETRIES"
    unfolding single_gap_def by blast
  from g(2) have "unat (retry_count g) \<le> 3" by (simp add: MAX_RETRIES_def word_le_nat_alt)
  with g(3) show "length (callback_calls pm) \<le> c + 4" by simp
  from g(4) show "state pm = RECOVERING \<or> state pm = STALE" by blast
  assume "state pm = STALE"
  with g(4) have "retry_count g = MAX_RETRIES" by auto
  with g(3) show "length (callback_calls pm) = c + 4" by (simp add: MAX_RETRIES_def)
qed

lemma gap_detected_single:
  assumes "state pm = LIVE" "pending_gaps pm = []" "gap_fill_callback pm"
    "\<not> is_duplicate pm sequence" "next_expected_seq pm < sequence"
    "sequence - next_expected_seq pm \<le> MAX_GAP_SIZE"
  shows "single_gap (length (callback_calls pm)) (snd (process_packet sequence data t0 pm))"
    and "pending_gaps (snd (process_packet sequence data t0 pm)) =
           [\<lparr>start_seq = next_expected_seq pm, end_seq = sequence - 1, request_time_ns = t0, retry_count = 0\<rparr>]"
    and "callback_calls (snd (process_packet sequence data t0 pm)) = callback_calls pm @
           [\<lparr>start_seq = next_expected_seq pm, end_seq = sequence - 1, request_time_ns = t0, retry_count = 0\<rparr>]"
    and "state (snd (process_packet sequence data t0 pm)) = RECOVERING"
proof -
  let ?g = "\<lparr>start_seq = next_expected_seq pm, end_seq = sequence - 1, request_time_ns = t0, retry_count = 0\<rparr>"
  let ?pm' = "snd (process_packet sequence data t0 pm)"
  from assms(5) have ne: "sequence \<noteq> next_expected_seq pm" "\<not> sequence < next_expected_seq pm"
    by auto
  from assms(6) have ng: "\<not> sequence - next_expected_seq pm > MAX_GAP_SIZE" by simp
  have f: "pending_gaps ?pm' = [?g]" "callback_calls ?pm' = callback_calls pm @ [?g]"
    "state ?pm' = RECOVERING" "gap_fill_callback ?pm'"
    using assms(1-4) ne ng
    by (simp_all add: process_packet_def Let_def is_duplicate_def mark_seen_frame handle_live_state_def
        buffer_if_data_frame invoke_callback_def)
  then show "pending_gaps ?pm' = [?g]" "callback_calls ?pm' = callback_calls pm @ [?g]"
    "state ?pm' = RECOVERING" by simp_all
  show "single_gap (length (callback_calls pm)) ?pm'"
    unfolding single_gap_def by (rule exI[of _ ?g]) (simp add: f MAX_RETRIES_def)
qed


lemma escalation:
  assumes p: "pending_gaps p = [g]" "retry_count g = 0" "gap_fill_callback p"
    and t: "unat (request_time_ns g) + unat GAP_TIMEOUT_NS < unat t1"
      "unat t1 + unat GAP_TIMEOUT_NS < unat t2"
      "unat t2 + unat GAP_TIMEOUT_NS < unat t3"
      "unat t3 + unat GAP_TIMEOUT_NS < unat t4"
  shows "fold periodic_maintenance [t1, t2, t3] p =
           p\<lparr>callback_calls := callback_calls p @
                [g\<lparr>retry_count := 1, request_time_ns := t1\<rparr>,
                 g\<lparr>retry_count := 2, request_time_ns := t2\<rparr>,
                 g\<lparr>retry_count := 3, request_time_ns := t3\<rparr>],
              pending_gaps := [g\<lparr>retry_count := 3, request_time_ns := t3\<rparr>]\<rparr>"
    and "fold periodic_maintenance [t1, t2, t3, t4] p =
           p\<lparr>callback_calls := callback_calls p @
                [g\<lparr>retry_count := 1, request_time_ns := t1\<rparr>,
                 g\<lparr>retry_count := 2, request_time_ns := t2\<rparr>,
                 g\<lparr>retry_count := 3, request_time_ns := t3\<rparr>],
              pending_gaps := [g\<lparr>retry_count := 3, request_time_ns := t3\<rparr>],
              state := STALE\<rparr>"
proof -
  have d: "now - request_time_ns (h\<lparr>request_time_ns := t'\<rparr>) > GAP_TIMEOUT_NS"
    if "unat t' + unat GAP_TIMEOUT_NS < unat now" for now t' and h :: GapFillRequest
    using timed_out[of "h\<lparr>request_time_ns := t'\<rparr>" now] that by simp
  note d0 = timed_out[OF t(1)]
  note d1 = d[OF t(2)] and d2 = d[OF t(3)] and d3 = d[OF t(4)]
  let ?g1 = "g\<lparr>retry_count := 1, request_time_ns := t1\<rparr>"
  let ?g2 = "g\<lparr>retry_count := 2, request_time_ns := t2\<rparr>"
  let ?g3 = "g\<lparr>retry_count := 3, request_time_ns := t3\<rparr>"
  let ?p1 = "p\<lparr>callback_calls := callback_calls p @ [?g1], pending_gaps := [?g1]\<rparr>"
  let ?p2 = "p\<lparr>callback_calls := callback_calls p @ [?g1, ?g2], pending_gaps := [?g2]\<rparr>"
  let ?p3 = "p\<lparr>callback_calls := callback_calls p @ [?g1, ?g2, ?g3], pending_gaps := [?g3]\<rparr>"
  have s1: "periodic_maintenance t1 p = ?p1"
    using p d0 by (simp add: periodic_maintenance_single[of p g] invoke_callback_def MAX_RETRIES_def)
  have s2: "periodic_maintenance t2 ?p1 = ?p2"
    using p d1[of ?g1] by (simp add: periodic_maintenance_single[of ?p1 ?g1] invoke_callback_def MAX_RETRIES_def)
  have s3: "periodic_maintenance t3 ?p2 = ?p3"
    using p d2[of ?g2] by (simp add: periodic_maintenance_single[of ?p2 ?g2] invoke_callback_def MAX_RETRIES_def)
  have s4: "periodic_maintenance t4 ?p3 = ?p3\<lparr>state := STALE\<rparr>"
    using p d3[of ?g3] by (simp add: periodic_maintenance_single[of ?p3 ?g3] invoke_callback_def MAX_RETRIES_def)
  show "fold periodic_maintenance [t1, t2, t3] p = ?p3"
    by (simp add: s1 s2 s3)
  show "fold periodic_maintenance [t1, t2, t3, t4] p = ?p3\<lparr>state := STALE\<rparr>"
    by (simp add: s1 s2 s3 s4)
qed



text \<open>
  C9: a maintenance call whose time is more than \<open>GAP_TIMEOUT\<close> past the request time of
  the single pending gap retries it when \<open>retry_count < MAX_RETRIES\<close> (the callback is
  invoked with the updated request, whose time is the current time and whose retry count
  is one higher) and otherwise sets the feed state to Stale. For a gap detected in the
  Live state with a callback set, the detection invokes the callback once; whatever
  maintenance calls follow, the callback has been invoked at most \<open>1 + MAX_RETRIES = 4\<close>
  times in all, and exactly 4 times once the state is Stale; and four maintenance calls
  that each find the gap timed out leave the state Recovering after the third and
  Stale after the fourth, with 4 invocations both times.
\<close>

theorem gap_timeout_escalation:
  assumes live: "state pm = LIVE" "pending_gaps pm = []" "gap_fill_callback pm"
      "\<not> is_duplicate pm sequence" "next_expected_seq pm < sequence"
      "sequence - next_expected_seq pm \<le> MAX_GAP_SIZE"
    and chain: "unat t0 + unat GAP_TIMEOUT_NS < unat t1" "unat t1 + unat GAP_TIMEOUT_NS < unat t2"
      "unat t2 + unat GAP_TIMEOUT_NS < unat t3" "unat t3 + unat GAP_TIMEOUT_NS < unat t4"
  shows
    "(pending_gaps p = [g] \<and> unat (request_time_ns g) + unat GAP_TIMEOUT_NS < unat now \<longrightarrow>
        periodic_maintenance now p =
          (if retry_count g < MAX_RETRIES then
             (invoke_callback (g\<lparr>retry_count := retry_count g + 1, request_time_ns := now\<rparr>) p)
               \<lparr>pending_gaps := [g\<lparr>retry_count := retry_count g + 1, request_time_ns := now\<rparr>]\<rparr>
           else p\<lparr>state := STALE\<rparr>)) \<and>
     state (snd (process_packet sequence data t0 pm)) = RECOVERING \<and>
     length (callback_calls (snd (process_packet sequence data t0 pm))) = length (callback_calls pm) + 1 \<and>
     length (callback_calls (fold periodic_maintenance ticks (snd (process_packet sequence data t0 pm))))
       \<le> length (callback_calls pm) + 1 + unat MAX_RETRIES \<and>
     (state (fold periodic_maintenance ticks (snd (process_packet sequence data t0 pm))) = STALE \<longrightarrow>
        length (callback_calls (fold periodic_maintenance ticks (snd (process_packet sequence data t0 pm))))
          = length (callback_calls pm) + 1 + unat MAX_RETRIES) \<and>
     state (fold periodic_maintenance [t1, t2, t3] (snd (process_packet sequence data t0 pm))) = RECOVERING \<and>
     length (callback_calls (fold periodic_maintenance [t1, t2, t3] (snd (process_packet sequence data t0 pm))))
       = length (callback_calls pm) + 1 + unat MAX_RETRIES \<and>
     state (fold periodic_maintenance [t1, t2, t3, t4] (snd (process_packet sequence data t0 pm))) = STALE \<and>
     length (callback_calls (fold periodic_maintenance [t1, t2, t3, t4] (snd (process_packet sequence data t0 pm))))
       = length (callback_calls pm) + 1 + unat MAX_RETRIES"
proof -
  let ?pm1 = "snd (process_packet sequence data t0 pm)"
  let ?g = "\<lparr>start_seq = next_expected_seq pm, end_seq = sequence - 1, request_time_ns = t0, retry_count = 0\<rparr>"
  note d = gap_detected_single[OF live, of data t0]
  have four: "unat MAX_RETRIES = 3" by (simp add: MAX_RETRIES_def)
  have a: "pending_gaps p = [g] \<and> unat (request_time_ns g) + unat GAP_TIMEOUT_NS < unat now \<longrightarrow>
        periodic_maintenance now p =
          (if retry_count g < MAX_RETRIES then
             (invoke_callback (g\<lparr>retry_count := retry_count g + 1, request_time_ns := now\<rparr>) p)
               \<lparr>pending_gaps := [g\<lparr>retry_count := retry_count g + 1, request_time_ns := now\<rparr>]\<rparr>
           else p\<lparr>state := STALE\<rparr>)"
    using timed_out[of g now] by (simp add: periodic_maintenance_single)
  have b: "state ?pm1 = RECOVERING" by (rule d(4))
  have c: "length (callback_calls ?pm1) = length (callback_calls pm) + 1" by (simp add: d(3))
  note sg = single_gap_ticks[OF d(1), of ticks]
  have e: "length (callback_calls (fold periodic_maintenance ticks ?pm1)) \<le> length (callback_calls pm) + 1 + unat MAX_RETRIES"
    using single_gap_bound(1)[OF sg] four by simp
  have f: "state (fold periodic_maintenance ticks ?pm1) = STALE \<longrightarrow>
        length (callback_calls (fold periodic_maintenance ticks ?pm1)) = length (callback_calls pm) + 1 + unat MAX_RETRIES"
    using single_gap_bound(2)[OF sg] four by simp
  have gcb: "gap_fill_callback ?pm1"
    using d(1) unfolding single_gap_def by blast
  have t0: "unat (request_time_ns ?g) + unat GAP_TIMEOUT_NS < unat t1" using chain(1) by simp
  have rc0: "retry_count ?g = 0" by simp
  note esc = escalation[OF d(2) rc0 gcb t0 chain(2) chain(3) chain(4)]
  have g3: "state (fold periodic_maintenance [t1, t2, t3] ?pm1) = RECOVERING"
    "length (callback_calls (fold periodic_maintenance [t1, t2, t3] ?pm1)) = length (callback_calls pm) + 1 + unat MAX_RETRIES"
    by (subst esc(1), simp add: b c four)+
  have g4: "state (fold periodic_maintenance [t1, t2, t3, t4] ?pm1) = STALE"
    "length (callback_calls (fold periodic_maintenance [t1, t2, t3, t4] ?pm1)) = length (callback_calls pm) + 1 + unat MAX_RETRIES"
    by (subst esc(2), simp add: b c four)+
  from a b c e f g3 g4 show ?thesis by blast
qed



theorem gap_timeout_escalation_witness:
  "state (fst (sequence_packets [(1, [1], 0), (2, [2], 0)] (init_pm True, []))) = LIVE \<and>
   pending_gaps (fst (sequence_packets [(1, [1], 0), (2, [2], 0)] (init_pm True, []))) = [] \<and>
   \<not> is_duplicate (fst (sequence_packets [(1, [1], 0), (2, [2], 0)] (init_pm True, []))) 5 \<and>
   unat (0::u64) + unat GAP_TIMEOUT_NS < unat (2000000000::u64) \<and>
   pending_gaps (periodic_maintenance 2000000000
     (snd (process_packet 5 (Some [5]) 0
        (fst (sequence_packets [(1, [1], 0), (2, [2], 0)] (init_pm True, [])))))) =
     [\<lparr>start_seq = 3, end_seq = 4, request_time_ns = 2000000000, retry_count = 1\<rparr>] \<and>
   state (fold periodic_maintenance [2000000000, 4000000000, 6000000000]
     (snd (process_packet 5 (Some [5]) 0
        (fst (sequence_packets [(1, [1], 0), (2, [2], 0)] (init_pm True, [])))))) = RECOVERING \<and>
   state (fold periodic_maintenance [2000000000, 4000000000, 6000000000, 8000000000]
     (snd (process_packet 5 (Some [5]) 0
        (fst (sequence_packets [(1, [1], 0), (2, [2], 0)] (init_pm True, [])))))) = STALE \<and>
   length (callback_calls (fold periodic_maintenance [2000000000, 4000000000, 6000000000, 8000000000]
     (snd (process_packet 5 (Some [5]) 0
        (fst (sequence_packets [(1, [1], 0), (2, [2], 0)] (init_pm True, []))))))) = 4"
  using gap_timeout_escalation [of "fst (sequence_packets [(1, [1], 0), (2, [2], 0)] (init_pm True, []))"
     5 0 2000000000 4000000000 6000000000 8000000000
     "snd (process_packet 5 (Some [5]) 0
        (fst (sequence_packets [(1, [1], 0), (2, [2], 0)] (init_pm True, []))))"
     "\<lparr>start_seq = 3, end_seq = 4, request_time_ns = 0, retry_count = 0\<rparr>" 2000000000
     "Some [5]" "[2000000000, 4000000000, 6000000000, 8000000000]"]
  by (simp add: pm_eval periodic_maintenance_def GAP_TIMEOUT_NS_def MAX_RETRIES_def)

section \<open>Drain correctness (C7)\<close>

lemma map_of_filter_keys:
  "k \<notin> S \<Longrightarrow> map_of (filter (\<lambda>kv. fst kv \<notin> S) m) k = map_of m k"
  by (induction m) auto

lemma of_nat_u64_inj:
  "i < 2 ^ 64 \<Longrightarrow> k < 2 ^ 64 \<Longrightarrow> (of_nat i :: u64) = of_nat k \<Longrightarrow> i = k"
proof -
  assume a: "i < 2 ^ 64" "k < 2 ^ 64" "(of_nat i :: u64) = of_nat k"
  from a(3) have "unat (of_nat i :: u64) = unat (of_nat k :: u64)" by simp
  with a(1,2) show "i = k" by (simp add: unat_of_nat)
qed


text \<open>
  C7: for every reorder buffer (of a size that fits \<open>size_t\<close>) and every
  \<open>next_expected\<close>, \<open>get_ready_packets\<close> returns the packets buffered under
  \<open>next_expected\<close>, \<open>next_expected + 1\<close>, ... in that order, as far as the run of present
  sequences goes: the sequence after the last one returned is not in the buffer. The
  returned entries are erased and every other entry stays as it was, \<open>next_expected\<close>
  and the counter \<open>resequenced\<close> grow by the number of packets returned, and nothing else
  changes.
\<close>

theorem drain_correct:
  assumes "length (resequence_buffer pm) < 2 ^ 64"
  shows "case get_ready_packets pm of (ready, pm') \<Rightarrow>
     (\<forall>i<length ready.
        map_of (resequence_buffer pm) (next_expected_seq pm + of_nat i) = Some (ready ! i)) \<and>
     map_of (resequence_buffer pm) (next_expected_seq pm + of_nat (length ready)) = None \<and>
     pm' = pm\<lparr>resequence_buffer :=
                 filter (\<lambda>kv. fst kv \<notin> (\<lambda>i. next_expected_seq pm + of_nat i) ` {..<length ready})
                   (resequence_buffer pm),
               next_expected_seq := next_expected_seq pm + of_nat (length ready),
               stats := (stats pm)\<lparr>resequenced := resequenced (stats pm) + of_nat (length ready)\<rparr>\<rparr>"
proof (rule get_ready_packets_spec[of pm])
  fix ready :: "u8 list list" and pm' :: PacketManager
  let ?n = "next_expected_seq pm"
  let ?S = "(\<lambda>i. ?n + of_nat i) ` {..<length ready}"
  assume g: "get_ready_packets pm = (ready, pm')"
    and look: "\<forall>i<length ready. map_of (resequence_buffer pm) (?n + of_nat i) = Some (ready ! i)"
    and pm': "pm' = pm\<lparr>resequence_buffer := filter (\<lambda>kv. fst kv \<notin> ?S) (resequence_buffer pm),
               next_expected_seq := ?n + of_nat (length ready),
               stats := (stats pm)\<lparr>resequenced := resequenced (stats pm) + of_nat (length ready)\<rparr>\<rparr>"
    and stop: "map_of (resequence_buffer pm') (next_expected_seq pm') = None"
    and len: "length ready + length (resequence_buffer pm') \<le> length (resequence_buffer pm)"
  from len assms have k: "length ready < 2 ^ 64" by simp
  have notin: "?n + of_nat (length ready) \<notin> ?S"
  proof
    assume "?n + of_nat (length ready) \<in> ?S"
    then obtain i where i: "i < length ready" "?n + of_nat (length ready) = ?n + of_nat i" by auto
    then have "(of_nat i :: u64) = of_nat (length ready)" by simp
    with i(1) k have "i = length ready" by (intro of_nat_u64_inj) simp_all
    with i(1) show False by simp
  qed
  have b: "resequence_buffer pm' = filter (\<lambda>kv. fst kv \<notin> ?S) (resequence_buffer pm)"
    and n: "next_expected_seq pm' = ?n + of_nat (length ready)"
    by (subst pm', simp)+
  from stop have none: "map_of (resequence_buffer pm) (?n + of_nat (length ready)) = None"
    unfolding b n by (simp add: map_of_filter_keys[OF notin])
  show ?thesis unfolding g prod.case using look none pm' by blast
qed


theorem drain_correct_witness:
  "length (resequence_buffer drain_example) < 2 ^ 64 \<and>
   next_expected_seq drain_example = 5 \<and>
   resequence_buffer drain_example = [(5, [50]), (6, [60]), (8, [80])] \<and>
   fst (get_ready_packets drain_example) = [[50], [60]] \<and>
   resequence_buffer (snd (get_ready_packets drain_example)) = [(8, [80])] \<and>
   next_expected_seq (snd (get_ready_packets drain_example)) = 7 \<and>
   resequenced (stats (snd (get_ready_packets drain_example))) = 2"
  using drain_correct [of drain_example]
  by (simp add: drain_example_def pm_eval)

section \<open>Duplicate-window policy (C8)\<close>

lemma process_gap_fill_dups: "duplicates (stats (process_gap_fill s e pm)) = duplicates (stats pm)"
  by (simp add: process_gap_fill_def Let_def)

lemma buffer_if_data_dups: "duplicates (stats (buffer_if_data s d pm)) = duplicates (stats pm)"
  by (simp add: buffer_if_data_def buffer_packet_def Let_def split: option.splits)

lemma gap_scan_window:
  "recent_sequences (snd (gap_scan sequence gs pm)) = recent_sequences pm \<and>
   recent_seq_set (snd (gap_scan sequence gs pm)) = recent_seq_set pm \<and>
   duplicates (stats (snd (gap_scan sequence gs pm))) = duplicates (stats pm)"
  by (induction gs) (simp_all add: process_gap_fill_frame process_gap_fill_dups)

lemma dispatch_window:
  "recent_sequences (snd (case state p of
                 INITIAL \<Rightarrow> handle_initial_state sequence p
               | LIVE \<Rightarrow> handle_live_state sequence data timestamp p
               | RECOVERING \<Rightarrow> handle_recovering_state sequence data p
               | STALE \<Rightarrow> (False, p))) = recent_sequences p \<and>
   recent_seq_set (snd (case state p of
                 INITIAL \<Rightarrow> handle_initial_state sequence p
               | LIVE \<Rightarrow> handle_live_state sequence data timestamp p
               | RECOVERING \<Rightarrow> handle_recovering_state sequence data p
               | STALE \<Rightarrow> (False, p))) = recent_seq_set p \<and>
   duplicates (stats (snd (case state p of
                 INITIAL \<Rightarrow> handle_initial_state sequence p
               | LIVE \<Rightarrow> handle_live_state sequence data timestamp p
               | RECOVERING \<Rightarrow> handle_recovering_state sequence data p
               | STALE \<Rightarrow> (False, p)))) = duplicates (stats p)"
  by (cases "state p")
     (simp_all add: handle_initial_state_def handle_live_state_def handle_recovering_state_def
        Let_def buffer_if_data_frame buffer_if_data_dups invoke_callback_def gap_scan_window)

lemma process_packet_fresh:
  assumes "\<not> is_duplicate pm sequence"
  shows "recent_sequences (snd (process_packet sequence data timestamp pm)) = recent_sequences (mark_seen sequence pm)"
    and "recent_seq_set (snd (process_packet sequence data timestamp pm)) = recent_seq_set (mark_seen sequence pm)"
    and "duplicates (stats (snd (process_packet sequence data timestamp pm))) = duplicates (stats pm)"
proof -
  let ?pm2 = "(if sequence > highest_seq_seen pm
               then pm\<lparr>stats := (stats pm)\<lparr>total_packets := total_packets (stats pm) + 1\<rparr>,
                       highest_seq_seen := sequence\<rparr>
               else pm\<lparr>stats := (stats pm)\<lparr>total_packets := total_packets (stats pm) + 1\<rparr>\<rparr>)"
  let ?pm3 = "mark_seen sequence ?pm2"
  have w: "recent_sequences ?pm3 = recent_sequences (mark_seen sequence pm)"
    "recent_seq_set ?pm3 = recent_seq_set (mark_seen sequence pm)"
    "duplicates (stats ?pm3) = duplicates (stats pm)"
    by (simp_all add: mark_seen_def Let_def split: list.splits)
  have pp: "snd (process_packet sequence data timestamp pm) =
     snd (case state ?pm3 of
                 INITIAL \<Rightarrow> handle_initial_state sequence ?pm3
               | LIVE \<Rightarrow> handle_live_state sequence data timestamp ?pm3
               | RECOVERING \<Rightarrow> handle_recovering_state sequence data ?pm3
               | STALE \<Rightarrow> (False, ?pm3))"
    using assms by (simp add: process_packet_def Let_def is_duplicate_def)
  note h = dispatch_window[where p = ?pm3 and sequence = sequence and data = data and timestamp = timestamp]
  show "recent_sequences (snd (process_packet sequence data timestamp pm)) = recent_sequences (mark_seen sequence pm)"
    "recent_seq_set (snd (process_packet sequence data timestamp pm)) = recent_seq_set (mark_seen sequence pm)"
    "duplicates (stats (snd (process_packet sequence data timestamp pm))) = duplicates (stats pm)"
    unfolding pp using h w by simp_all
qed

lemma process_packet_duplicate:
  assumes "is_duplicate pm sequence"
  shows "process_packet sequence data timestamp pm =
     (False, pm\<lparr>stats := (stats pm)\<lparr>total_packets := total_packets (stats pm) + 1,
                                     duplicates := duplicates (stats pm) + 1\<rparr>,
                highest_seq_seen := (if sequence > highest_seq_seen pm then sequence else highest_seq_seen pm)\<rparr>)"
  using assms by (simp add: process_packet_def Let_def is_duplicate_def)

lemma mark_seen_window:
  assumes "window_inv pm" "sequence \<notin> recent_seq_set pm"
  shows "recent_sequences (mark_seen sequence pm) =
           drop (length (recent_sequences pm) + 1 - DUPLICATE_WINDOW_SIZE) (recent_sequences pm @ [sequence])"
    and "window_inv (mark_seen sequence pm)"
proof -
  let ?dq = "recent_sequences pm"
  from assms have inv: "recent_seq_set pm = set ?dq" "distinct ?dq" "length ?dq \<le> DUPLICATE_WINDOW_SIZE"
    and fresh: "sequence \<notin> set ?dq"
    by (simp_all add: window_inv_def)
  show "recent_sequences (mark_seen sequence pm) =
           drop (length ?dq + 1 - DUPLICATE_WINDOW_SIZE) (?dq @ [sequence])"
  proof (cases "length ?dq + 1 > DUPLICATE_WINDOW_SIZE")
    case True
    with inv(3) have "length ?dq + 1 - DUPLICATE_WINDOW_SIZE = 1" by simp
    with True show ?thesis
      by (cases ?dq) (simp_all add: mark_seen_def Let_def)
  next
    case False
    then show ?thesis by (simp add: mark_seen_def Let_def)
  qed
  show "window_inv (mark_seen sequence pm)"
  proof (cases "length ?dq + 1 > DUPLICATE_WINDOW_SIZE")
    case True
    then obtain a rest where dq: "?dq = a # rest"
      by (cases ?dq) (simp_all add: DUPLICATE_WINDOW_SIZE_def)
    with inv fresh True show ?thesis
      by (auto simp: window_inv_def mark_seen_def Let_def)
  next
    case False
    with inv fresh show ?thesis
      by (auto simp: window_inv_def mark_seen_def Let_def)
  qed
qed

lemma process_packets_window:
  assumes "window_inv pm" "distinct (map fst pkts)" "set (map fst pkts) \<inter> recent_seq_set pm = {}"
  shows "recent_sequences (process_packets pkts pm) =
           drop (length (recent_sequences pm) + length pkts - DUPLICATE_WINDOW_SIZE)
             (recent_sequences pm @ map fst pkts) \<and>
         window_inv (process_packets pkts pm)"
  using assms
proof (induction pkts arbitrary: pm)
  case Nil
  then show ?case by (simp add: process_packets_def window_inv_def)
next
  case (Cons pkt pkts)
  obtain s d t where pkt: "pkt = (s, d, t)" by (cases pkt)
  let ?pm1 = "snd (process_packet s d t pm)"
  let ?dq = "recent_sequences pm"
  from Cons.prems pkt have fresh: "s \<notin> recent_seq_set pm" by auto
  then have nd: "\<not> is_duplicate pm s" by (simp add: is_duplicate_def)
  have dq1: "recent_sequences ?pm1 = drop (length ?dq + 1 - DUPLICATE_WINDOW_SIZE) (?dq @ [s])"
    by (simp add: process_packet_fresh(1)[OF nd] mark_seen_window(1)[OF Cons.prems(1) fresh])
  have inv1: "window_inv ?pm1"
    using mark_seen_window(2)[OF Cons.prems(1) fresh] process_packet_fresh(1,2)[OF nd, of d t]
    by (simp add: window_inv_def)
  from inv1 have set1: "recent_seq_set ?pm1 = set (recent_sequences ?pm1)" by (simp add: window_inv_def)
  have "set (recent_sequences ?pm1) \<subseteq> set (?dq @ [s])"
    unfolding dq1 by (rule set_drop_subset)
  moreover from Cons.prems(1) have "recent_seq_set pm = set ?dq" by (simp add: window_inv_def)
  ultimately have sub: "recent_seq_set ?pm1 \<subseteq> insert s (recent_seq_set pm)"
    using set1 by simp
  from Cons.prems(2) pkt have "s \<notin> set (map fst pkts)" by simp
  moreover from Cons.prems(3) have "set (map fst pkts) \<inter> recent_seq_set pm = {}" by auto
  ultimately have disj: "set (map fst pkts) \<inter> recent_seq_set ?pm1 = {}"
    using sub by blast
  from Cons.prems(2) have dist: "distinct (map fst pkts)" by simp
  note IH = Cons.IH[OF inv1 dist disj]
  have step: "process_packets (pkt # pkts) pm = process_packets pkts ?pm1"
    by (simp add: process_packets_def pkt)
  from Cons.prems(1) have le: "length ?dq \<le> DUPLICATE_WINDOW_SIZE" by (simp add: window_inv_def)
  have "drop (length (recent_sequences ?pm1) + length pkts - DUPLICATE_WINDOW_SIZE)
             (recent_sequences ?pm1 @ map fst pkts) =
        drop (length ?dq + length (pkt # pkts) - DUPLICATE_WINDOW_SIZE) (?dq @ map fst (pkt # pkts))"
  proof (cases "length ?dq + 1 > DUPLICATE_WINDOW_SIZE")
    case True
    with le have len: "length ?dq = DUPLICATE_WINDOW_SIZE" by simp
    then obtain a rest where dq: "?dq = a # rest"
      by (cases ?dq) (simp_all add: DUPLICATE_WINDOW_SIZE_def)
    from len have "recent_sequences ?pm1 = rest @ [s]" unfolding dq1 by (simp add: dq)
    moreover from len dq have "length rest + 1 = DUPLICATE_WINDOW_SIZE" by simp
    ultimately show ?thesis using len by (simp add: dq pkt)
  next
    case False
    then have "recent_sequences ?pm1 = ?dq @ [s]" unfolding dq1 by simp
    then show ?thesis by (simp add: pkt)
  qed
  with IH step show ?case by simp
qed


lemma fresh_packets_props:
  assumes "n < 2 ^ 64 - 1"
  shows "length (fresh_packets n) = n"
    and "distinct (map fst (fresh_packets n))"
    and "0 \<notin> set (map fst (fresh_packets n))"
proof -
  have m: "map fst (fresh_packets n) = map of_nat [1..<Suc n]"
    by (simp add: fresh_packets_def comp_def)
  show "length (fresh_packets n) = n" by (simp add: fresh_packets_def)
  have "inj_on (of_nat :: nat \<Rightarrow> u64) (set [1..<Suc n])"
  proof (rule inj_onI)
    fix x y assume "x \<in> set [1..<Suc n]" "y \<in> set [1..<Suc n]" "(of_nat x :: u64) = of_nat y"
    with assms show "x = y" by (intro of_nat_u64_inj) auto
  qed
  then show "distinct (map fst (fresh_packets n))"
    unfolding m by (simp add: distinct_map)
  show "0 \<notin> set (map fst (fresh_packets n))"
  proof
    assume "0 \<in> set (map fst (fresh_packets n))"
    then obtain k where k: "1 \<le> k" "k \<le> n" "(of_nat k :: u64) = 0" unfolding m by auto
    then have "(of_nat k :: u64) = of_nat 0" by simp
    with k(2) assms have "k = 0" by (intro of_nat_u64_inj) auto
    with k(1) show False by simp
  qed
qed


text \<open>
  C8: a packet whose sequence is in the duplicate window is dropped, \<open>duplicates\<close> is
  incremented and the window is unchanged. A packet whose sequence is not in the window
  has it appended to the deque and inserted into the set, and when the deque then holds
  more than \<open>N = 10000\<close> sequences its oldest is removed from both; \<open>duplicates\<close> is not
  incremented. Consequently, once a sequence has been inserted and \<open>N\<close> further distinct
  sequences, none of them in the window, have been processed, the window holds exactly
  those \<open>N\<close>: the first has been evicted, and when it arrives again it is not counted
  as a duplicate but inserted anew.
\<close>

theorem duplicate_window_policy:
  "(is_duplicate pm sequence \<longrightarrow>
      process_packet sequence data timestamp pm =
        (False, pm\<lparr>stats := (stats pm)\<lparr>total_packets := total_packets (stats pm) + 1,
                                       duplicates := duplicates (stats pm) + 1\<rparr>,
                   highest_seq_seen :=
                     (if sequence > highest_seq_seen pm then sequence else highest_seq_seen pm)\<rparr>)) \<and>
   (\<not> is_duplicate pm sequence \<longrightarrow>
      recent_sequences (snd (process_packet sequence data timestamp pm)) =
        (if length (recent_sequences pm) + 1 > DUPLICATE_WINDOW_SIZE
         then tl (recent_sequences pm @ [sequence]) else recent_sequences pm @ [sequence]) \<and>
      recent_seq_set (snd (process_packet sequence data timestamp pm)) =
        (if length (recent_sequences pm) + 1 > DUPLICATE_WINDOW_SIZE
         then insert sequence (recent_seq_set pm) - {hd (recent_sequences pm @ [sequence])}
         else insert sequence (recent_seq_set pm)) \<and>
      duplicates (stats (snd (process_packet sequence data timestamp pm))) = duplicates (stats pm)) \<and>
   (window_inv pm \<and> \<not> is_duplicate pm sequence \<and> length pkts = DUPLICATE_WINDOW_SIZE \<and>
    distinct (map fst pkts) \<and> sequence \<notin> set (map fst pkts) \<and>
    set (map fst pkts) \<inter> recent_seq_set pm = {} \<longrightarrow>
      recent_sequences (process_packets pkts (snd (process_packet sequence data timestamp pm))) = map fst pkts \<and>
      \<not> is_duplicate (process_packets pkts (snd (process_packet sequence data timestamp pm))) sequence \<and>
      duplicates (stats (snd (process_packet sequence data' timestamp'
          (process_packets pkts (snd (process_packet sequence data timestamp pm)))))) =
        duplicates (stats (process_packets pkts (snd (process_packet sequence data timestamp pm)))) \<and>
      is_duplicate (snd (process_packet sequence data' timestamp'
          (process_packets pkts (snd (process_packet sequence data timestamp pm))))) sequence)"
proof (intro conjI impI)
  assume "is_duplicate pm sequence"
  then show "process_packet sequence data timestamp pm =
        (False, pm\<lparr>stats := (stats pm)\<lparr>total_packets := total_packets (stats pm) + 1,
                                       duplicates := duplicates (stats pm) + 1\<rparr>,
                   highest_seq_seen :=
                     (if sequence > highest_seq_seen pm then sequence else highest_seq_seen pm)\<rparr>)"
    by (rule process_packet_duplicate)
next
  assume nd: "\<not> is_duplicate pm sequence"
  show "recent_sequences (snd (process_packet sequence data timestamp pm)) =
        (if length (recent_sequences pm) + 1 > DUPLICATE_WINDOW_SIZE
         then tl (recent_sequences pm @ [sequence]) else recent_sequences pm @ [sequence])"
    unfolding process_packet_fresh(1)[OF nd]
    by (cases "recent_sequences pm") (simp_all add: mark_seen_def Let_def)
  show "recent_seq_set (snd (process_packet sequence data timestamp pm)) =
        (if length (recent_sequences pm) + 1 > DUPLICATE_WINDOW_SIZE
         then insert sequence (recent_seq_set pm) - {hd (recent_sequences pm @ [sequence])}
         else insert sequence (recent_seq_set pm))"
    unfolding process_packet_fresh(2)[OF nd]
    by (cases "recent_sequences pm") (simp_all add: mark_seen_def Let_def)
  show "duplicates (stats (snd (process_packet sequence data timestamp pm))) = duplicates (stats pm)"
    by (rule process_packet_fresh(3)[OF nd])
next
  assume a: "window_inv pm \<and> \<not> is_duplicate pm sequence \<and> length pkts = DUPLICATE_WINDOW_SIZE \<and>
    distinct (map fst pkts) \<and> sequence \<notin> set (map fst pkts) \<and>
    set (map fst pkts) \<inter> recent_seq_set pm = {}"
  let ?pm1 = "snd (process_packet sequence data timestamp pm)"
  let ?pmN = "process_packets pkts ?pm1"
  let ?xs = "map fst pkts"
  from a have inv: "window_inv pm" and nd: "\<not> is_duplicate pm sequence"
    and len: "length pkts = DUPLICATE_WINDOW_SIZE" and dist: "distinct ?xs"
    and notin: "sequence \<notin> set ?xs" and disj: "set ?xs \<inter> recent_seq_set pm = {}"
    by blast+
  from nd have fresh: "sequence \<notin> recent_seq_set pm" by (simp add: is_duplicate_def)
  have inv1: "window_inv ?pm1"
    using mark_seen_window(2)[OF inv fresh] process_packet_fresh(1,2)[OF nd, of data timestamp]
    by (simp add: window_inv_def)
  have "set (recent_sequences ?pm1) \<subseteq> set (recent_sequences pm @ [sequence])"
    unfolding process_packet_fresh(1)[OF nd] mark_seen_window(1)[OF inv fresh]
    by (rule set_drop_subset)
  moreover from inv have "recent_seq_set pm = set (recent_sequences pm)" by (simp add: window_inv_def)
  moreover from inv1 have "recent_seq_set ?pm1 = set (recent_sequences ?pm1)" by (simp add: window_inv_def)
  ultimately have "recent_seq_set ?pm1 \<subseteq> insert sequence (recent_seq_set pm)" by simp
  with notin disj have disj1: "set ?xs \<inter> recent_seq_set ?pm1 = {}" by blast
  note w = process_packets_window[OF inv1 dist disj1]
  from inv1 have "length (recent_sequences ?pm1) \<le> DUPLICATE_WINDOW_SIZE" by (simp add: window_inv_def)
  with w len show xs: "recent_sequences ?pmN = ?xs" by simp
  from w have invN: "window_inv ?pmN" by blast
  then have setN: "recent_seq_set ?pmN = set ?xs" by (simp add: window_inv_def xs)
  with notin show ndN: "\<not> is_duplicate ?pmN sequence" by (simp add: is_duplicate_def)
  then show "duplicates (stats (snd (process_packet sequence data' timestamp' ?pmN))) = duplicates (stats ?pmN)"
    by (rule process_packet_fresh(3))
  from ndN have freshN: "sequence \<notin> recent_seq_set ?pmN" by (simp add: is_duplicate_def)
  let ?pmR = "snd (process_packet sequence data' timestamp' ?pmN)"
  have invR: "window_inv ?pmR"
    using mark_seen_window(2)[OF invN freshN] process_packet_fresh(1,2)[OF ndN, of data' timestamp']
    by (simp add: window_inv_def)
  obtain a rest where ar: "?xs = a # rest"
    using len by (cases ?xs) (simp_all add: DUPLICATE_WINDOW_SIZE_def)
  have "recent_sequences ?pmR = drop (length ?xs + 1 - DUPLICATE_WINDOW_SIZE) (?xs @ [sequence])"
    unfolding process_packet_fresh(1)[OF ndN] mark_seen_window(1)[OF invN freshN] xs ..
  also have "\<dots> = rest @ [sequence]"
  proof -
    from len ar have "length ?xs + 1 - DUPLICATE_WINDOW_SIZE = 1"
      by (metis add_diff_cancel_left' length_map)
    then show ?thesis by (simp add: ar)
  qed
  finally have "sequence \<in> set (recent_sequences ?pmR)" by simp
  with invR show "is_duplicate ?pmR sequence" by (simp add: window_inv_def is_duplicate_def)
qed


theorem duplicate_window_policy_witness:
  "window_inv (init_pm True) \<and> \<not> is_duplicate (init_pm True) 0 \<and>
   length (fresh_packets 10000) = DUPLICATE_WINDOW_SIZE \<and>
   distinct (map fst (fresh_packets 10000)) \<and> 0 \<notin> set (map fst (fresh_packets 10000)) \<and>
   set (map fst (fresh_packets 10000)) \<inter> recent_seq_set (init_pm True) = {} \<and>
   \<not> is_duplicate (process_packets (fresh_packets 10000) (snd (process_packet 0 None 0 (init_pm True)))) 0 \<and>
   is_duplicate (snd (process_packet 0 None 0 (init_pm True))) 0 \<and>
   process_packet 0 None 7 (snd (process_packet 0 None 0 (init_pm True))) =
     (False, (snd (process_packet 0 None 0 (init_pm True)))
        \<lparr>stats := init_stats\<lparr>total_packets := 2, duplicates := 1\<rparr>\<rparr>)"
  using duplicate_window_policy [of "init_pm True" 0 None 0 "fresh_packets 10000" None 0]
    duplicate_window_policy [of "snd (process_packet 0 None 0 (init_pm True))" 0 None 7]
    fresh_packets_props [of 10000]
  by (simp add: window_inv_def is_duplicate_def init_pm_def init_stats_def DUPLICATE_WINDOW_SIZE_def
      process_packet_def mark_seen_def handle_initial_state_def Let_def)



section \<open>Ring fullness boundary (C6)\<close>

lemma valid_size_iff: "valid_size N = (\<exists>k<64. N = 2 ^ k)"
  unfolding valid_size_def by (simp only: set_map set_upt) auto

lemma valid_size_bounds: "valid_size N \<Longrightarrow> 0 < N \<and> N < 2 ^ 64 - 1"
proof -
  assume "valid_size N"
  then obtain k where k: "k < 64" "N = 2 ^ k" unfolding valid_size_iff by blast
  then have "(2::nat) ^ k \<le> 2 ^ 63" by (intro power_increasing) simp_all
  with k show ?thesis by simp
qed

lemma unat_succ_u64: "unat (x::u64) < 2 ^ 64 - 1 \<Longrightarrow> unat (x + 1) = unat x + 1"
  by (simp add: unat_word_ariths)

lemma push_dist:
  assumes "unat (w - c :: u64) \<le> N" "N < 2 ^ 64 - 1"
  shows "unat (w + 1 - c) = unat (w - c) + 1"
proof -
  have "w + 1 - c = (w - c) + 1" by simp
  moreover from assms have "unat (w - c) < 2 ^ 64 - 1" by simp
  ultimately show ?thesis by (simp only: unat_succ_u64)
qed

lemma try_push_iff:
  assumes "valid_size N" "ring_inv N q"
  shows "(\<not> fst (try_push N item q)) =
           (N \<le> unat (write_pos q - cached_read_pos q) \<and> N \<le> unat (write_pos q - read_pos q))"
    and "(\<not> fst (try_push N item q)) = (N \<le> unat (write_pos q - read_pos q))"
proof -
  from valid_size_bounds[OF assms(1)] have N: "N < 2 ^ 64 - 1" by simp
  from assms(2) have i: "unat (write_pos q - read_pos q) \<le> unat (write_pos q - cached_read_pos q)"
    "unat (write_pos q - cached_read_pos q) \<le> N"
    by (simp_all add: ring_inv_def)
  from i have i': "unat (write_pos q - read_pos q) \<le> N" by simp
  note dc = push_dist[OF i(2) N] and dr = push_dist[OF i' N]
  show "(\<not> fst (try_push N item q)) =
           (N \<le> unat (write_pos q - cached_read_pos q) \<and> N \<le> unat (write_pos q - read_pos q))"
    using i by (auto simp: try_push_def Let_def dc dr)
  then show "(\<not> fst (try_push N item q)) = (N \<le> unat (write_pos q - read_pos q))"
    using i by auto
qed

lemma try_push_result:
  assumes "valid_size N" "ring_inv N q"
  shows "ring_inv N (snd (try_push N item q))"
    and "read_pos (snd (try_push N item q)) = read_pos q"
    and "cached_write_pos (snd (try_push N item q)) = cached_write_pos q"
    and "write_pos (snd (try_push N item q)) = (if fst (try_push N item q) then write_pos q + 1 else write_pos q)"
    and "fst (try_push N item q) \<Longrightarrow>
           unat (write_pos (snd (try_push N item q)) - read_pos q) = unat (write_pos q - read_pos q) + 1"
proof -
  from valid_size_bounds[OF assms(1)] have N: "N < 2 ^ 64 - 1" by simp
  from assms(2) have i: "unat (write_pos q - read_pos q) \<le> unat (write_pos q - cached_read_pos q)"
    "unat (write_pos q - cached_read_pos q) \<le> N" "length (buffer q) = N"
    by (simp_all add: ring_inv_def)
  from i have i': "unat (write_pos q - read_pos q) \<le> N" by simp
  note dc = push_dist[OF i(2) N] and dr = push_dist[OF i' N]
  show "ring_inv N (snd (try_push N item q))"
    using i by (auto simp: try_push_def Let_def ring_inv_def dc dr)
  show "read_pos (snd (try_push N item q)) = read_pos q"
    "cached_write_pos (snd (try_push N item q)) = cached_write_pos q"
    "write_pos (snd (try_push N item q)) = (if fst (try_push N item q) then write_pos q + 1 else write_pos q)"
    by (simp_all add: try_push_def Let_def)
  show "fst (try_push N item q) \<Longrightarrow>
           unat (write_pos (snd (try_push N item q)) - read_pos q) = unat (write_pos q - read_pos q) + 1"
    using dr by (auto simp: try_push_def Let_def split: if_splits)
qed

lemma push_all_room:
  assumes "valid_size N"
  shows "ring_inv N q \<Longrightarrow> unat (write_pos q - read_pos q) + length xs \<le> N \<Longrightarrow>
     fst (push_all N xs q) = replicate (length xs) True \<and>
     ring_inv N (snd (push_all N xs q)) \<and>
     read_pos (snd (push_all N xs q)) = read_pos q \<and>
     cached_write_pos (snd (push_all N xs q)) = cached_write_pos q \<and>
     write_pos (snd (push_all N xs q)) = write_pos q + of_nat (length xs) \<and>
     unat (write_pos (snd (push_all N xs q)) - read_pos q) = unat (write_pos q - read_pos q) + length xs"
proof (induction xs arbitrary: q)
  case Nil
  then show ?case by simp
next
  case (Cons x xs)
  let ?q1 = "snd (try_push N x q)"
  from Cons.prems(2) have "\<not> N \<le> unat (write_pos q - read_pos q)" by simp
  with try_push_iff(2)[OF assms Cons.prems(1), of x] have ok: "fst (try_push N x q)" by simp
  note r = try_push_result[OF assms Cons.prems(1), of x]
  from r(5)[OF ok] r(2) Cons.prems(2)
  have room: "unat (write_pos ?q1 - read_pos ?q1) + length xs \<le> N" by simp
  note IH = Cons.IH[OF r(1) room]
  have step: "push_all N (x # xs) q = (True # fst (push_all N xs ?q1), snd (push_all N xs ?q1))"
    using ok by (simp add: split_beta Let_def)
  have w1: "write_pos ?q1 = write_pos q + 1" using r(4) ok by simp
  have a: "fst (push_all N (x # xs) q) = replicate (length (x # xs)) True"
    unfolding step using IH by simp
  have b: "ring_inv N (snd (push_all N (x # xs) q))"
    "read_pos (snd (push_all N (x # xs) q)) = read_pos q"
    "cached_write_pos (snd (push_all N (x # xs) q)) = cached_write_pos q"
    unfolding step using IH r(2,3) by simp_all
  have c: "write_pos (snd (push_all N (x # xs) q)) = write_pos q + of_nat (length (x # xs))"
    unfolding step using IH w1 by (simp add: add.assoc)
  from IH have "unat (write_pos (snd (push_all N xs ?q1)) - read_pos ?q1) =
      unat (write_pos ?q1 - read_pos ?q1) + length xs" by blast
  with r(2) r(5)[OF ok]
  have d: "unat (write_pos (snd (push_all N (x # xs) q)) - read_pos q) =
      unat (write_pos q - read_pos q) + length (x # xs)"
    unfolding step by simp
  from a b c d show ?case by blast
qed

lemma try_pop_nonempty:
  assumes "read_pos q < write_pos q"
  shows "try_pop N q =
     (Some (buffer q ! unat (read_pos q AND SIZE_MASK N)),
      q\<lparr>cached_write_pos := (if read_pos q \<ge> cached_write_pos q then write_pos q else cached_write_pos q),
        read_pos := read_pos q + 1\<rparr>)"
  using assms by (auto simp: try_pop_def Let_def)

lemma pop_dist:
  assumes "r < (w::u64)"
  shows "unat (w - (r + 1)) = unat (w - r) - 1"
proof -
  have e: "w - (r + 1) = (w - r) - 1" by simp
  from assms have nz: "w - r \<noteq> 0" by auto
  show ?thesis unfolding e by (rule unat_minus_one) (rule nz)
qed


lemma try_pop_result:
  assumes "ring_inv N q" "cached_write_pos q \<le> write_pos q" "read_pos q \<le> write_pos q"
  shows "(fst (try_pop N q) = None) = (read_pos q = write_pos q)"
    and "ring_inv N (snd (try_pop N q))"
proof -
  show e: "(fst (try_pop N q) = None) = (read_pos q = write_pos q)"
    using assms(2,3) by (auto simp: try_pop_def Let_def)
  show "ring_inv N (snd (try_pop N q))"
  proof (cases "read_pos q = write_pos q")
    case True
    with e have "fst (try_pop N q) = None" by simp
    then have "snd (try_pop N q) = q\<lparr>cached_write_pos := write_pos q\<rparr>"
      by (auto simp: try_pop_def Let_def split: if_splits)
    with assms(1) show ?thesis by (simp add: ring_inv_def)
  next
    case False
    with assms(3) have lt: "read_pos q < write_pos q" by simp
    from assms(1) have i: "unat (write_pos q - read_pos q) \<le> unat (write_pos q - cached_read_pos q)"
      "unat (write_pos q - cached_read_pos q) \<le> N" "length (buffer q) = N"
      by (simp_all add: ring_inv_def)
    from pop_dist[OF lt] i(1)
    have "unat (write_pos q - (read_pos q + 1)) \<le> unat (write_pos q - cached_read_pos q)" by simp
    with i(2,3) show ?thesis
      unfolding try_pop_nonempty[OF lt] by (simp add: ring_inv_def)
  qed
qed


lemma unat_of_nat_u64: "k < 2 ^ 64 \<Longrightarrow> unat (of_nat k :: u64) = k"
  by (simp add: unat_of_nat)

lemma masked_index:
  assumes "valid_size N" "k < N"
  shows "unat ((of_nat k :: u64) AND SIZE_MASK N) = k"
proof -
  from assms(1) obtain m where m: "m < 64" "N = 2 ^ m" unfolding valid_size_iff by blast
  have "SIZE_MASK N = (mask m :: u64)"
    by (simp add: SIZE_MASK_def m mask_eq_exp_minus_1 of_nat_diff)
  then have "(of_nat k :: u64) AND SIZE_MASK N = take_bit m (of_nat k)"
    by (simp add: take_bit_eq_mask)
  then have "unat ((of_nat k :: u64) AND SIZE_MASK N) = take_bit m (unat (of_nat k :: u64))"
    by (simp add: unsigned_take_bit_eq)
  also from assms(2) valid_size_bounds[OF assms(1)] have "unat (of_nat k :: u64) = k"
    by (intro unat_of_nat_u64) simp
  also from assms(2) m have "take_bit m k = k" by (simp add: take_bit_nat_eq_self)
  finally show ?thesis .
qed

lemma try_push_buffer:
  "buffer (snd (try_push N item q)) =
     (if fst (try_push N item q)
      then (buffer q)[unat (write_pos q AND SIZE_MASK N) := item] else buffer q)"
  by (simp add: try_push_def Let_def)

lemma push_all_frame:
  assumes "valid_size N"
  shows "ring_inv N q \<Longrightarrow> read_pos q = 0 \<Longrightarrow> write_pos q = of_nat k \<Longrightarrow> k + length xs \<le> N \<Longrightarrow>
     i < k \<Longrightarrow> buffer (snd (push_all N xs q)) ! i = buffer q ! i"
proof (induction xs arbitrary: q k)
  case Nil
  then show ?case by simp
next
  case (Cons x xs)
  let ?q1 = "snd (try_push N x q)"
  from valid_size_bounds[OF assms] Cons.prems(4) have k: "k < N" "k < 2 ^ 64" by simp_all
  then have uk: "unat (write_pos q - read_pos q) = k"
    using Cons.prems(2,3) by (simp add: unat_of_nat_u64)
  with k try_push_iff(2)[OF assms Cons.prems(1), of x] have ok: "fst (try_push N x q)" by simp
  note r = try_push_result[OF assms Cons.prems(1), of x]
  have w1: "write_pos ?q1 = of_nat (Suc k)" using r(4) ok Cons.prems(3) by simp
  have r1: "read_pos ?q1 = 0" using r(2) Cons.prems(2) by simp
  have room: "Suc k + length xs \<le> N" using Cons.prems(4) by simp
  have i1: "i < Suc k" using Cons.prems(5) by simp
  note IH = Cons.IH[OF r(1) r1 w1 room i1]
  have step: "snd (push_all N (x # xs) q) = snd (push_all N xs ?q1)"
    by (simp add: split_beta Let_def)
  have "buffer ?q1 = (buffer q)[k := x]"
    using ok Cons.prems(3) masked_index[OF assms k(1)] by (simp add: try_push_buffer)
  with Cons.prems(5) have "buffer ?q1 ! i = buffer q ! i" by simp
  with IH step show ?case by simp
qed

lemma push_all_first:
  assumes "valid_size N" "length xs = N"
  shows "buffer (snd (push_all N xs (empty_queue N d))) ! 0 = hd xs"
proof -
  from valid_size_bounds[OF assms(1)] have N: "0 < N" "N < 2 ^ 64 - 1" by simp_all
  with assms(2) obtain x rest where xs: "xs = x # rest" by (cases xs) auto
  let ?q0 = "empty_queue N d :: 'a SPSCQueue"
  let ?q1 = "snd (try_push N x ?q0)"
  have inv0: "ring_inv N ?q0" by (simp add: ring_inv_def empty_queue_def)
  have "\<not> N \<le> unat (write_pos ?q0 - read_pos ?q0)" using N by (simp add: empty_queue_def)
  with try_push_iff(2)[OF assms(1) inv0, of x] have ok: "fst (try_push N x ?q0)" by simp
  note r = try_push_result[OF assms(1) inv0, of x]
  have w1: "write_pos ?q1 = of_nat 1" using r(4) ok by (simp add: empty_queue_def)
  have r1: "read_pos ?q1 = 0" using r(2) by (simp add: empty_queue_def)
  have room: "1 + length rest \<le> N" using assms(2) xs by simp
  have b1: "buffer ?q1 = (replicate N d)[0 := x]"
    using ok masked_index[OF assms(1) N(1)] by (simp add: try_push_buffer empty_queue_def)
  have "buffer (snd (push_all N rest ?q1)) ! 0 = buffer ?q1 ! 0"
    by (rule push_all_frame[OF assms(1) r(1) r1 w1 room]) simp
  also have "\<dots> = x" using N(1) by (simp add: b1)
  finally show ?thesis by (simp add: xs split_beta Let_def)
qed



text \<open>
  C6: on a ring of \<open>N\<close> slots in the state its producer keeps (\<open>ring_inv\<close>), \<open>try_push\<close>
  returns false exactly when the writer is at least \<open>N\<close> ahead of the cached read
  position and, after the refresh, at least \<open>N\<close> ahead of the read position itself,
  which is exactly when write minus read is at least \<open>N\<close>; and \<open>try_push\<close> keeps the
  ring in that state. Starting from the empty ring, \<open>N\<close> pushes in a row all succeed,
  the next push fails, a pop then succeeds (and yields the first item pushed), after
  which one push succeeds and the push after it fails.
\<close>

theorem ring_fullness_boundary:
  assumes "valid_size N"
  shows
   "(ring_inv N q \<longrightarrow>
       (\<not> fst (try_push N item q)) =
          (N \<le> unat (write_pos q - cached_read_pos q) \<and> N \<le> unat (write_pos q - read_pos q)) \<and>
       (\<not> fst (try_push N item q)) = (N \<le> unat (write_pos q - read_pos q)) \<and>
       ring_inv N (snd (try_push N item q))) \<and>
    (length xs = N \<longrightarrow>
       (let q1 = snd (push_all N xs (empty_queue N d));
            q2 = snd (try_push N x q1);
            q3 = snd (try_pop N q2);
            q4 = snd (try_push N y q3)
        in fst (push_all N xs (empty_queue N d)) = replicate N True \<and>
           \<not> fst (try_push N x q1) \<and>
           fst (try_pop N q2) = Some (hd xs) \<and>
           fst (try_push N y q3) \<and>
           \<not> fst (try_push N z q4)))"
proof (intro conjI impI)
  assume inv: "ring_inv N q"
  show "(\<not> fst (try_push N item q)) =
          (N \<le> unat (write_pos q - cached_read_pos q) \<and> N \<le> unat (write_pos q - read_pos q))"
    by (rule try_push_iff(1)[OF assms inv])
  show "(\<not> fst (try_push N item q)) = (N \<le> unat (write_pos q - read_pos q))"
    by (rule try_push_iff(2)[OF assms inv])
  show "ring_inv N (snd (try_push N item q))"
    by (rule try_push_result(1)[OF assms inv])
next
  assume len: "length xs = N"
  from valid_size_bounds[OF assms] have N: "0 < N" "N < 2 ^ 64 - 1" by simp_all
  let ?q0 = "empty_queue N d"
  let ?q1 = "snd (push_all N xs ?q0)"
  let ?q2 = "snd (try_push N x ?q1)"
  let ?q3 = "snd (try_pop N ?q2)"
  let ?q4 = "snd (try_push N y ?q3)"
  have inv0: "ring_inv N ?q0" by (simp add: ring_inv_def empty_queue_def)
  have room: "unat (write_pos ?q0 - read_pos ?q0) + length xs \<le> N"
    using len by (simp add: empty_queue_def)
  note p = push_all_room[OF assms inv0 room]
  have e0: "read_pos ?q0 = 0" "write_pos ?q0 = 0" by (simp_all add: empty_queue_def)
  from p len have a: "fst (push_all N xs ?q0) = replicate N True" by simp
  from p have inv1: "ring_inv N ?q1" by blast
  from p have "read_pos ?q1 = read_pos ?q0" by blast
  with e0 have r1: "read_pos ?q1 = 0" by simp
  from p have "unat (write_pos ?q1 - read_pos ?q0) = unat (write_pos ?q0 - read_pos ?q0) + length xs"
    by blast
  with e0 r1 len have d1: "unat (write_pos ?q1 - read_pos ?q1) = N" by simp
  from try_push_iff(2)[OF assms inv1, of x] d1 have b: "\<not> fst (try_push N x ?q1)" by simp
  note t2 = try_push_result[OF assms inv1, of x]
  from t2(4) b have w2: "write_pos ?q2 = write_pos ?q1" by simp
  from t2(2) r1 have r2: "read_pos ?q2 = 0" by simp
  from w2 r2 d1 r1 have d2: "unat (write_pos ?q2 - read_pos ?q2) = N" by simp
  have buf2: "buffer ?q2 = buffer ?q1" using b by (simp add: try_push_buffer)
  from d2 r2 N(1) have "write_pos ?q2 \<noteq> 0" by auto
  with r2 have lt: "read_pos ?q2 < write_pos ?q2" by (simp add: word_greater_zero_iff)
  note pop = try_pop_nonempty[OF lt, of N]
  have c: "fst (try_pop N ?q2) = Some (hd xs)"
    unfolding pop using r2 buf2 push_all_first[OF assms len, of d] by simp
  from t2(1) have i2: "unat (write_pos ?q2 - read_pos ?q2) \<le> unat (write_pos ?q2 - cached_read_pos ?q2)"
    "unat (write_pos ?q2 - cached_read_pos ?q2) \<le> N" "length (buffer ?q2) = N"
    by (simp_all add: ring_inv_def)
  have q3: "write_pos ?q3 = write_pos ?q2" "read_pos ?q3 = read_pos ?q2 + 1"
    "cached_read_pos ?q3 = cached_read_pos ?q2" "buffer ?q3 = buffer ?q2"
    unfolding pop by simp_all
  have d3: "unat (write_pos ?q3 - read_pos ?q3) = N - 1"
    unfolding q3 using pop_dist[OF lt] d2 by simp
  have inv3: "ring_inv N ?q3"
    unfolding ring_inv_def d3 unfolding q3 using i2 d2 by simp
  from d3 N(1) have "\<not> N \<le> unat (write_pos ?q3 - read_pos ?q3)" by arith
  with try_push_iff(2)[OF assms inv3, of y] have e: "fst (try_push N y ?q3)" by blast
  note t4 = try_push_result[OF assms inv3, of y]
  from t4(5)[OF e] d3 have "unat (write_pos ?q4 - read_pos ?q3) = N - 1 + 1" by simp
  with t4(2) N(1) have d4: "unat (write_pos ?q4 - read_pos ?q4) = N" by simp
  from try_push_iff(2)[OF assms t4(1), of z] d4 have f: "\<not> fst (try_push N z ?q4)" by simp
  from a b c e f show "let q1 = snd (push_all N xs (empty_queue N d));
            q2 = snd (try_push N x q1);
            q3 = snd (try_pop N q2);
            q4 = snd (try_push N y q3)
        in fst (push_all N xs (empty_queue N d)) = replicate N True \<and>
           \<not> fst (try_push N x q1) \<and>
           fst (try_pop N q2) = Some (hd xs) \<and>
           fst (try_push N y q3) \<and>
           \<not> fst (try_push N z q4)"
    by (simp add: Let_def)
qed


theorem ring_fullness_boundary_witness:
  "valid_size 4 \<and> ring_inv 4 (empty_queue 4 (0::nat)) \<and> length [10, 20, 30, 40 :: nat] = 4 \<and>
   fst (try_push 4 7 (empty_queue 4 (0::nat))) \<and>
   fst (push_all 4 [10, 20, 30, 40] (empty_queue 4 (0::nat))) = replicate 4 True \<and>
   \<not> fst (try_push 4 50 (snd (push_all 4 [10, 20, 30, 40] (empty_queue 4 (0::nat))))) \<and>
   fst (try_pop 4 (snd (try_push 4 50 (snd (push_all 4 [10, 20, 30, 40] (empty_queue 4 (0::nat)))))))
     = Some (hd [10, 20, 30, 40]) \<and>
   fst (try_push 4 60 (snd (try_pop 4 (snd (try_push 4 50
          (snd (push_all 4 [10, 20, 30, 40] (empty_queue 4 (0::nat))))))))) \<and>
   \<not> fst (try_push 4 70 (snd (try_push 4 60 (snd (try_pop 4 (snd (try_push 4 50
          (snd (push_all 4 [10, 20, 30, 40] (empty_queue 4 (0::nat)))))))))))"
proof -
  have v: "valid_size 4" unfolding valid_size_iff by (rule exI[of _ 2]) simp
  have i: "ring_inv 4 (empty_queue 4 (0::nat))" by (simp add: ring_inv_def empty_queue_def)
  have l: "length [10, 20, 30, 40 :: nat] = 4" by simp
  note th = ring_fullness_boundary [OF v, of "empty_queue 4 (0::nat)" 7 "[10, 20, 30, 40]" 0 50 60 70]
  from th i have "(\<not> fst (try_push 4 7 (empty_queue 4 (0::nat)))) =
      (4 \<le> unat (write_pos (empty_queue 4 (0::nat)) - read_pos (empty_queue 4 (0::nat))))"
    by blast
  then have a: "fst (try_push 4 7 (empty_queue 4 (0::nat)))" by (simp add: empty_queue_def)
  from th l have b: "fst (push_all 4 [10, 20, 30, 40] (empty_queue 4 (0::nat))) = replicate 4 True \<and>
   \<not> fst (try_push 4 50 (snd (push_all 4 [10, 20, 30, 40] (empty_queue 4 (0::nat))))) \<and>
   fst (try_pop 4 (snd (try_push 4 50 (snd (push_all 4 [10, 20, 30, 40] (empty_queue 4 (0::nat)))))))
     = Some (hd [10, 20, 30, 40]) \<and>
   fst (try_push 4 60 (snd (try_pop 4 (snd (try_push 4 50
          (snd (push_all 4 [10, 20, 30, 40] (empty_queue 4 (0::nat))))))))) \<and>
   \<not> fst (try_push 4 70 (snd (try_push 4 60 (snd (try_pop 4 (snd (try_push 4 50
          (snd (push_all 4 [10, 20, 30, 40] (empty_queue 4 (0::nat)))))))))))"
    unfolding Let_def by blast
  from v i l a b show ?thesis by blast
qed


section \<open>Reachable states of the packet manager\<close>

lemma map_assign_keys: "set (map fst (map_assign k v m)) = insert k (set (map fst m))"
proof (induction m)
  case Nil
  show ?case by simp
next
  case (Cons a m)
  obtain k' v' where a: "a = (k', v')" by (cases a)
  show ?case
  proof (cases "k < k'")
    case True
    then show ?thesis by (simp add: a)
  next
    case False
    show ?thesis
    proof (cases "k = k'")
      case True
      then show ?thesis by (simp add: a)
    next
      case ne: False
      have "set (map fst (map_assign k v (a # m))) = insert k' (set (map fst (map_assign k v m)))"
        using False ne by (simp add: a)
      also have "\<dots> = insert k' (insert k (set (map fst m)))" by (simp only: Cons.IH)
      also have "\<dots> = insert k (set (map fst (a # m)))" by (simp add: a insert_commute)
      finally show ?thesis .
    qed
  qed
qed

lemma map_assign_length: "length (map_assign k v m) \<le> Suc (length m)"
  by (induction k v m rule: map_assign.induct) simp_all

lemma map_wf_Cons: "map_wf ((k, v) # m) = ((\<forall>x\<in>set (map fst m). k < x) \<and> map_wf m)"
  by (simp add: map_wf_def)

lemma map_wf_assign: "map_wf m \<Longrightarrow> map_wf (map_assign k v m)"
proof (induction m)
  case Nil
  then show ?case by (simp add: map_wf_def)
next
  case (Cons a m)
  obtain k' v' where a: "a = (k', v')" by (cases a)
  from Cons.prems have wf: "map_wf m" and lt: "\<forall>x\<in>set (map fst m). k' < x"
    by (simp_all add: a map_wf_Cons)
  show ?case
  proof (cases "k < k'")
    case True
    have "\<forall>x\<in>set (map fst ((k', v') # m)). k < x"
    proof
      fix x assume "x \<in> set (map fst ((k', v') # m))"
      then have "x = k' \<or> x \<in> set (map fst m)" by simp
      with lt True show "k < x" by auto
    qed
    with wf lt True show ?thesis by (simp add: a map_wf_Cons)
  next
    case False
    show ?thesis
    proof (cases "k = k'")
      case True
      with lt wf show ?thesis by (simp add: a map_wf_Cons)
    next
      case ne: False
      with False have kk: "k' < k" by auto
      have "\<forall>x\<in>set (map fst (map_assign k v m)). k' < x"
        unfolding map_assign_keys using lt kk by simp
      with Cons.IH[OF wf] False ne show ?thesis
        by (simp add: a map_wf_Cons del: set_map)
    qed
  qed
qed

lemma map_wf_filter: "map_wf m \<Longrightarrow> map_wf (filter P m)"
  unfolding map_wf_def by (induction m) auto

lemma map_wf_erase_begin: "map_wf m \<Longrightarrow> map_wf (map_erase_begin m)"
  unfolding map_wf_def map_erase_begin_def by (cases m) auto


lemma process_gap_fill_gaps_ok: "gaps_ok pm \<Longrightarrow> gaps_ok (process_gap_fill s e pm)"
  by (auto simp: gaps_ok_def process_gap_fill_def Let_def)

lemma gap_scan_gaps_ok: "gaps_ok pm \<Longrightarrow> gaps_ok (snd (gap_scan sequence gs pm))"
  by (induction gs) (simp_all add: process_gap_fill_gaps_ok)

lemma gap_scan_buffer: "resequence_buffer (snd (gap_scan sequence gs pm)) = resequence_buffer pm"
  by (induction gs) (simp_all add: process_gap_fill_frame)

lemma process_packet_gaps_ok:
  assumes "gaps_ok pm"
  shows "gaps_ok (snd (process_packet sequence data timestamp pm))"
proof (cases "is_duplicate pm sequence")
  case True
  with assms show ?thesis by (simp add: process_packet_duplicate gaps_ok_def)
next
  case False
  let ?pm2 = "(if sequence > highest_seq_seen pm
               then pm\<lparr>stats := (stats pm)\<lparr>total_packets := total_packets (stats pm) + 1\<rparr>,
                       highest_seq_seen := sequence\<rparr>
               else pm\<lparr>stats := (stats pm)\<lparr>total_packets := total_packets (stats pm) + 1\<rparr>\<rparr>)"
  let ?pm3 = "mark_seen sequence ?pm2"
  have pp: "snd (process_packet sequence data timestamp pm) =
     snd (case state ?pm3 of
                 INITIAL \<Rightarrow> handle_initial_state sequence ?pm3
               | LIVE \<Rightarrow> handle_live_state sequence data timestamp ?pm3
               | RECOVERING \<Rightarrow> handle_recovering_state sequence data ?pm3
               | STALE \<Rightarrow> (False, ?pm3))"
    using False by (simp add: process_packet_def Let_def is_duplicate_def)
  have g3: "gaps_ok ?pm3" using assms by (simp add: gaps_ok_def mark_seen_frame)
  have "gaps_ok (snd (case state p of
                 INITIAL \<Rightarrow> handle_initial_state sequence p
               | LIVE \<Rightarrow> handle_live_state sequence data timestamp p
               | RECOVERING \<Rightarrow> handle_recovering_state sequence data p
               | STALE \<Rightarrow> (False, p)))" if "gaps_ok p" for p
  proof (cases "state p")
    case INITIAL
    with that show ?thesis by (simp add: handle_initial_state_def gaps_ok_def)
  next
    case LIVE
    with that show ?thesis
      by (simp add: handle_live_state_def gaps_ok_def Let_def buffer_if_data_frame invoke_callback_def)
  next
    case RECOVERING
    with that gap_scan_gaps_ok[OF that, of sequence "pending_gaps p"] show ?thesis
      by (simp add: handle_recovering_state_def gaps_ok_def Let_def buffer_if_data_frame)
  next
    case STALE
    with that show ?thesis by simp
  qed
  from this[OF g3] show ?thesis unfolding pp .
qed

lemma buffer_packet_ok: "buffer_ok pm \<Longrightarrow> buffer_ok (buffer_packet sequence d pm)"
proof -
  assume ok: "buffer_ok pm"
  let ?buf = "resequence_buffer pm"
  from ok have wf: "map_wf ?buf" and len: "length ?buf \<le> MAX_RESEQUENCE_BUFFER_SIZE"
    by (simp_all add: buffer_ok_def)
  show ?thesis
  proof (cases "length ?buf \<ge> MAX_RESEQUENCE_BUFFER_SIZE")
    case True
    then obtain a rest where b: "?buf = a # rest"
      by (cases ?buf) (simp_all add: MAX_RESEQUENCE_BUFFER_SIZE_def)
    with len have "Suc (length rest) \<le> MAX_RESEQUENCE_BUFFER_SIZE" by simp
    with map_assign_length[of sequence d rest]
    have "length (map_assign sequence d rest) \<le> MAX_RESEQUENCE_BUFFER_SIZE" by simp
    moreover from wf b have "map_wf rest" using map_wf_erase_begin[of ?buf]
      by (simp add: map_erase_begin_def)
    then have "map_wf (map_assign sequence d rest)" by (rule map_wf_assign)
    ultimately show ?thesis using True b
      by (simp add: buffer_ok_def buffer_packet_def Let_def map_erase_begin_def)
  next
    case False
    with map_assign_length[of sequence d ?buf]
    have "length (map_assign sequence d ?buf) \<le> MAX_RESEQUENCE_BUFFER_SIZE" by simp
    with False map_wf_assign[OF wf, of sequence d] show ?thesis
      by (simp add: buffer_ok_def buffer_packet_def Let_def)
  qed
qed

lemma buffer_if_data_ok: "buffer_ok pm \<Longrightarrow> buffer_ok (buffer_if_data sequence data pm)"
  using buffer_packet_ok[of pm sequence]
  by (auto simp: buffer_if_data_def Let_def buffer_ok_def split: option.splits)

lemma buffer_ok_cong: "resequence_buffer p = resequence_buffer q \<Longrightarrow> buffer_ok p = buffer_ok q"
  by (simp add: buffer_ok_def)

lemma process_packet_buffer_ok:
  assumes "buffer_ok pm"
  shows "buffer_ok (snd (process_packet sequence data timestamp pm))"
proof (cases "is_duplicate pm sequence")
  case True
  with assms show ?thesis by (simp add: process_packet_duplicate buffer_ok_def)
next
  case False
  let ?pm2 = "(if sequence > highest_seq_seen pm
               then pm\<lparr>stats := (stats pm)\<lparr>total_packets := total_packets (stats pm) + 1\<rparr>,
                       highest_seq_seen := sequence\<rparr>
               else pm\<lparr>stats := (stats pm)\<lparr>total_packets := total_packets (stats pm) + 1\<rparr>\<rparr>)"
  let ?pm3 = "mark_seen sequence ?pm2"
  have pp: "snd (process_packet sequence data timestamp pm) =
     snd (case state ?pm3 of
                 INITIAL \<Rightarrow> handle_initial_state sequence ?pm3
               | LIVE \<Rightarrow> handle_live_state sequence data timestamp ?pm3
               | RECOVERING \<Rightarrow> handle_recovering_state sequence data ?pm3
               | STALE \<Rightarrow> (False, ?pm3))"
    using False by (simp add: process_packet_def Let_def is_duplicate_def)
  have b3: "buffer_ok ?pm3" using assms by (simp add: buffer_ok_def mark_seen_frame)
  have "buffer_ok (snd (case state p of
                 INITIAL \<Rightarrow> handle_initial_state sequence p
               | LIVE \<Rightarrow> handle_live_state sequence data timestamp p
               | RECOVERING \<Rightarrow> handle_recovering_state sequence data p
               | STALE \<Rightarrow> (False, p)))" if ok: "buffer_ok p" for p
  proof (cases "state p")
    case INITIAL
    with ok show ?thesis by (simp add: handle_initial_state_def buffer_ok_def)
  next
    case LIVE
    let ?p4 = "\<lambda>g. (invoke_callback g
                 (p\<lparr>stats := (stats p)\<lparr>gaps_detected := gaps_detected (stats p) + 1\<rparr>,
                    pending_gaps := pending_gaps p @ [g]\<rparr>))\<lparr>state := RECOVERING\<rparr>"
    have "buffer_ok (?p4 g)" for g using ok by (simp add: buffer_ok_def invoke_callback_def)
    then have "buffer_ok (buffer_if_data sequence data (?p4 g))" for g by (rule buffer_if_data_ok)
    with LIVE ok show ?thesis
      by (simp add: handle_live_state_def Let_def) (simp add: buffer_ok_def)
  next
    case RECOVERING
    with ok buffer_if_data_ok[OF ok, of sequence data] show ?thesis
      by (simp add: handle_recovering_state_def Let_def gap_scan_buffer
            buffer_ok_cong[of "snd (gap_scan sequence (pending_gaps p) p)" p])
         (simp add: buffer_ok_def)
  next
    case STALE
    with ok show ?thesis by simp
  qed
  from this[OF b3] show ?thesis unfolding pp .
qed


lemma process_packet_window_inv:
  assumes "window_inv pm"
  shows "window_inv (snd (process_packet sequence data timestamp pm))"
proof (cases "is_duplicate pm sequence")
  case True
  with assms show ?thesis by (simp add: process_packet_duplicate window_inv_def)
next
  case False
  then have fresh: "sequence \<notin> recent_seq_set pm" by (simp add: is_duplicate_def)
  from mark_seen_window(2)[OF assms fresh] process_packet_fresh(1,2)[OF False, of data timestamp]
  show ?thesis by (simp add: window_inv_def)
qed

lemma maintenance_loop_fst_Cons:
  "fst (maintenance_loop now (gap # gaps) pm) =
     (if now - request_time_ns gap > GAP_TIMEOUT_NS \<and> retry_count gap < MAX_RETRIES
      then gap\<lparr>retry_count := retry_count gap + 1, request_time_ns := now\<rparr> else gap) #
     fst (maintenance_loop now gaps
       (if now - request_time_ns gap > GAP_TIMEOUT_NS then
          (if retry_count gap < MAX_RETRIES
           then invoke_callback (gap\<lparr>retry_count := retry_count gap + 1, request_time_ns := now\<rparr>) pm
           else pm\<lparr>state := STALE\<rparr>)
        else pm))"
  by (simp add: Let_def split: prod.splits)

lemma maintenance_loop_shape:
  "length (fst (maintenance_loop now gaps pm)) = length gaps \<and>
   (state (snd (maintenance_loop now gaps pm)) = state pm \<or>
    state (snd (maintenance_loop now gaps pm)) = STALE) \<and>
   recent_sequences (snd (maintenance_loop now gaps pm)) = recent_sequences pm \<and>
   recent_seq_set (snd (maintenance_loop now gaps pm)) = recent_seq_set pm"
proof (induction gaps arbitrary: pm)
  case Nil
  show ?case by simp
next
  case (Cons gap gaps)
  let ?p1 = "(if now - request_time_ns gap > GAP_TIMEOUT_NS then
          (if retry_count gap < MAX_RETRIES
           then invoke_callback (gap\<lparr>retry_count := retry_count gap + 1, request_time_ns := now\<rparr>) pm
           else pm\<lparr>state := STALE\<rparr>)
        else pm)"
  have f: "state ?p1 = state pm \<or> state ?p1 = STALE"
    "recent_sequences ?p1 = recent_sequences pm" "recent_seq_set ?p1 = recent_seq_set pm"
    by (simp_all add: invoke_callback_def)
  note IH = Cons.IH[of ?p1]
  from IH have "state (snd (maintenance_loop now gaps ?p1)) = state ?p1 \<or>
    state (snd (maintenance_loop now gaps ?p1)) = STALE" by blast
  with f(1) have st: "state (snd (maintenance_loop now gaps ?p1)) = state pm \<or>
    state (snd (maintenance_loop now gaps ?p1)) = STALE" by auto
  from IH f(2,3) have w: "recent_sequences (snd (maintenance_loop now gaps ?p1)) = recent_sequences pm"
    "recent_seq_set (snd (maintenance_loop now gaps ?p1)) = recent_seq_set pm" by simp_all
  from IH have len: "length (fst (maintenance_loop now gaps ?p1)) = length gaps" by blast
  show ?case
    unfolding maintenance_loop_snd_Cons maintenance_loop_fst_Cons
    using st w len by simp
qed

lemma periodic_maintenance_inv:
  assumes "pm_inv pm"
  shows "pm_inv (periodic_maintenance now pm)"
proof -
  let ?r = "maintenance_loop now (pending_gaps pm) pm"
  have pm': "periodic_maintenance now pm = (snd ?r)\<lparr>pending_gaps := fst ?r\<rparr>"
    by (simp add: periodic_maintenance_def split_beta)
  note sh = maintenance_loop_shape[of now "pending_gaps pm" pm]
  note fr = maintenance_loop_frame[of now "pending_gaps pm" pm]
  from sh have ne: "(fst ?r = []) = (pending_gaps pm = [])" by (metis length_0_conv)
  from assms sh ne have "gaps_ok (periodic_maintenance now pm)"
    unfolding pm' by (auto simp: pm_inv_def gaps_ok_def)
  moreover from assms fr have "buffer_ok (periodic_maintenance now pm)"
    unfolding pm' by (simp add: pm_inv_def buffer_ok_def)
  moreover from assms sh have "window_inv (periodic_maintenance now pm)"
    unfolding pm' by (simp add: pm_inv_def window_inv_def)
  ultimately show ?thesis by (simp add: pm_inv_def)
qed

lemma get_ready_packets_inv:
  assumes "pm_inv pm"
  shows "pm_inv (snd (get_ready_packets pm))"
proof (rule get_ready_packets_spec[of pm])
  fix ready :: "u8 list list" and pm' :: PacketManager
  assume g: "get_ready_packets pm = (ready, pm')"
    and pm': "pm' = pm\<lparr>resequence_buffer := filter (\<lambda>kv. fst kv \<notin> (\<lambda>i. next_expected_seq pm + of_nat i) ` {..<length ready}) (resequence_buffer pm),
               next_expected_seq := next_expected_seq pm + of_nat (length ready),
               stats := (stats pm)\<lparr>resequenced := resequenced (stats pm) + of_nat (length ready)\<rparr>\<rparr>"
  let ?P = "\<lambda>kv :: u64 \<times> u8 list. fst kv \<notin> (\<lambda>i. next_expected_seq pm + of_nat i) ` {..<length ready}"
  from assms have "map_wf (resequence_buffer pm)"
    "length (resequence_buffer pm) \<le> MAX_RESEQUENCE_BUFFER_SIZE"
    by (simp_all add: pm_inv_def buffer_ok_def)
  then have "map_wf (filter ?P (resequence_buffer pm))"
    "length (filter ?P (resequence_buffer pm)) \<le> MAX_RESEQUENCE_BUFFER_SIZE"
    using le_trans[OF length_filter_le[of ?P "resequence_buffer pm"]]
    by (simp_all add: map_wf_filter)
  then have "buffer_ok pm'" by (subst pm') (simp add: buffer_ok_def)
  moreover from assms have "gaps_ok pm'" "window_inv pm'"
    by (subst pm', simp add: pm_inv_def gaps_ok_def window_inv_def)+
  ultimately show ?thesis using g by (simp add: pm_inv_def)
qed

lemma init_pm_inv: "pm_inv (init_pm cb)"
  by (simp add: pm_inv_def gaps_ok_def buffer_ok_def window_inv_def init_pm_def map_wf_def)

lemma apply_op_inv: "pm_inv pm \<Longrightarrow> pm_inv (apply_op x pm)"
proof (cases x)
  case (Op_process_packet sequence data timestamp)
  assume "pm_inv pm"
  with Op_process_packet show ?thesis
    by (simp add: pm_inv_def process_packet_gaps_ok process_packet_buffer_ok process_packet_window_inv)
next
  case Op_get_ready_packets
  assume "pm_inv pm"
  with Op_get_ready_packets show ?thesis by (simp add: get_ready_packets_inv)
next
  case (Op_process_gap_fill s e)
  assume "pm_inv pm"
  with Op_process_gap_fill show ?thesis
    by (simp add: pm_inv_def process_gap_fill_gaps_ok buffer_ok_def window_inv_def process_gap_fill_frame)
next
  case (Op_periodic_maintenance now)
  assume "pm_inv pm"
  with Op_periodic_maintenance show ?thesis by (simp add: periodic_maintenance_inv)
next
  case Op_trigger_resync
  then show ?thesis
    by (simp add: pm_inv_def gaps_ok_def buffer_ok_def window_inv_def trigger_resync_def map_wf_def)
qed

lemma reachable_inv: "pm_inv (fold apply_op ops (init_pm cb))"
proof -
  have "pm_inv pm \<Longrightarrow> pm_inv (fold apply_op ops pm)" for pm
    by (induction ops arbitrary: pm) (simp_all add: apply_op_inv)
  then show ?thesis using init_pm_inv .
qed


text \<open>
  So the states that the theorems above ask for are the ones the manager is in: after
  any operations on a fresh manager the duplicate window is consistent, the reorder
  buffer is small, no gap is pending in the Live state and one is in Recovering.
\<close>

lemma reachable_states:
  "window_inv (fold apply_op ops (init_pm cb)) \<and>
   length (resequence_buffer (fold apply_op ops (init_pm cb))) < 2 ^ 64 \<and>
   (state (fold apply_op ops (init_pm cb)) = LIVE \<longrightarrow>
      pending_gaps (fold apply_op ops (init_pm cb)) = []) \<and>
   (state (fold apply_op ops (init_pm cb)) = RECOVERING \<longrightarrow>
      pending_gaps (fold apply_op ops (init_pm cb)) \<noteq> [])"
proof -
  from reachable_inv[of ops cb]
  have w: "window_inv (fold apply_op ops (init_pm cb))"
    and g: "gaps_ok (fold apply_op ops (init_pm cb))"
    and b: "length (resequence_buffer (fold apply_op ops (init_pm cb))) \<le> MAX_RESEQUENCE_BUFFER_SIZE"
    by (simp_all add: pm_inv_def buffer_ok_def)
  from b have "length (resequence_buffer (fold apply_op ops (init_pm cb))) < 2 ^ 64"
    by (simp add: MAX_RESEQUENCE_BUFFER_SIZE_def)
  with w g show ?thesis by (simp add: gaps_ok_def)
qed

section \<open>Gap closed by in-band arrivals (C1)\<close>

text \<open>
  C1 says that after the packets 1, 2, 5, 3, 4, 6, each drained after, the sequences
  1 to 6 have been handed on in order, with \<open>gaps_detected = 1\<close>, \<open>gaps_filled = 1\<close>,
  \<open>out_of_order = 1\<close>, \<open>resequenced = 1\<close> and the feed Live. The code hands on the six
  packets in order and counts one gap, one out-of-order packet and one resequenced
  packet, but the gap is never closed: 3 and 4 arrive as \<open>next_expected\<close> itself, where
  \<open>handle_recovering_state\<close> advances \<open>next_expected\<close> and tests \<open>pending_gaps_.empty()\<close>
  without removing the request they fill, so the request for 3 to 4 stays pending,
  \<open>gaps_filled\<close> stays 0 and the state stays Recovering.
\<close>

theorem in_band_fill_stays_recovering:
  "sequence_packets
     [(1, [1], 10), (2, [2], 20), (5, [5], 30), (3, [3], 40), (4, [4], 50), (6, [6], 60)]
     (init_pm True, []) =
   (\<lparr>state = RECOVERING, next_expected_seq = 7, highest_seq_seen = 6,
      recent_sequences = [1, 2, 5, 3, 4, 6], recent_seq_set = {1, 2, 3, 4, 5, 6},
      resequence_buffer = [],
      pending_gaps = [\<lparr>start_seq = 3, end_seq = 4, request_time_ns = 30, retry_count = 0\<rparr>],
      stats = \<lparr>total_packets = 6, duplicates = 0, gaps_detected = 1, gaps_filled = 0,
                out_of_order = 1, resequenced = 1, dropped_overflow = 0\<rparr>,
      gap_fill_callback = True,
      callback_calls = [\<lparr>start_seq = 3, end_seq = 4, request_time_ns = 30, retry_count = 0\<rparr>]\<rparr>,
    [[1], [2], [3], [4], [5], [6]])"
  by (simp add: pm_eval insert_commute)

text \<open>
  In general: a packet that arrives as \<open>next_expected\<close> while a gap is pending in the
  Recovering state leaves the pending gaps, \<open>gaps_filled\<close> and the state as they were.
\<close>

lemma recovering_in_order_keeps_gap:
  assumes "state pm = RECOVERING" "pending_gaps pm \<noteq> []" "\<not> is_duplicate pm sequence"
    "sequence = next_expected_seq pm"
  shows "fst (process_packet sequence data timestamp pm) \<and>
     state (snd (process_packet sequence data timestamp pm)) = RECOVERING \<and>
     pending_gaps (snd (process_packet sequence data timestamp pm)) = pending_gaps pm \<and>
     gaps_filled (stats (snd (process_packet sequence data timestamp pm))) = gaps_filled (stats pm)"
  using assms
  by (simp add: process_packet_def Let_def is_duplicate_def mark_seen_frame handle_recovering_state_def)

end
